theory Spec2Isabelle
  imports Main "HOL-Library.Word" "HOL-Library.List_Lexorder"
begin

unbundle bit_operations_syntax

section \<open>Addresses and the XOR metric (common/kademlia/kademlia.go)\<close>

text \<open>
  An \<^verbatim>\<open>Address\<close> is a \<^verbatim>\<open>common.Hash\<close>, a Go array \<^verbatim>\<open>[32]byte\<close>. It is
  modelled as a list of bytes. The array type fixes the length, so no index of the loops
  below leaves the array; the theorems about the metric itself carry the hypothesis that
  every address has 32 entries, and those about the routing table hold for byte lists of
  any length.

  \<^verbatim>\<open>proximity\<close> scans the bytes of \<^verbatim>\<open>one\<close> from the front and, inside every byte
  of \<^verbatim>\<open>one[i] ^ other[i]\<close>, the bits \<^verbatim>\<open>j = 0 .. 7\<close> from the most significant one
  (\<^verbatim>\<open>(uint8(oxo)>>uint8(7-j))&0x1 != 0\<close>). \<open>first_set_bit\<close> is the inner loop,
  started at bit \<open>j\<close>; \<open>None\<close> is the loop running to its end.
\<close>

type_synonym address = "8 word list"

function first_set_bit :: "8 word \<Rightarrow> nat \<Rightarrow> nat option" where
  "first_set_bit oxo j =
     (if j < 8
      then (if (drop_bit (7 - j) oxo) AND 1 \<noteq> 0 then Some j
            else first_set_bit oxo (Suc j))
      else None)"
  by pat_completeness auto
termination
  by (relation "measure (\<lambda>(oxo, j). 8 - j)") auto

function proximity_loop :: "address \<Rightarrow> address \<Rightarrow> nat \<Rightarrow> nat" where
  "proximity_loop one other i =
     (if i < length one
      then (case first_set_bit (one ! i XOR other ! i) 0 of
              Some j \<Rightarrow> i * 8 + j
            | None \<Rightarrow> proximity_loop one other (Suc i))
      else length one * 8)"
  by pat_completeness auto
termination
  by (relation "measure (\<lambda>(one, other, i). length one - i)") auto

definition proximity :: "address \<Rightarrow> address \<Rightarrow> nat" where
  "proximity one other = proximity_loop one other 0"

function proxCmp_loop :: "address \<Rightarrow> address \<Rightarrow> address \<Rightarrow> nat \<Rightarrow> int" where
  "proxCmp_loop target a b i =
     (if i < length target
      then (let da = a ! i XOR target ! i; db = b ! i XOR target ! i
            in if da > db then 1
               else if da < db then -1
               else proxCmp_loop target a b (Suc i))
      else 0)"
  by pat_completeness auto
termination
  by (relation "measure (\<lambda>(target, a, b, i). length target - i)") auto

definition proxCmp :: "address \<Rightarrow> address \<Rightarrow> address \<Rightarrow> int" where
  "proxCmp target a b = proxCmp_loop target a b 0"

text \<open>
  The reference notions of the specification: the big-endian integer value of a byte
  string, the number of leading zero bits of a number written with \<open>w\<close> bits, and the
  bits of an address, most significant bit of the first byte first.
\<close>

definition xor_bytes :: "address \<Rightarrow> address \<Rightarrow> address" where
  "xor_bytes x y = map2 (XOR) x y"

definition be_val :: "8 word list \<Rightarrow> nat" where
  "be_val bs = foldl (\<lambda>acc b. acc * 256 + unat b) 0 bs"

fun bit_length :: "nat \<Rightarrow> nat" where
  "bit_length n = (if n = 0 then 0 else Suc (bit_length (n div 2)))"

definition leading_zeros :: "nat \<Rightarrow> nat \<Rightarrow> nat" where
  "leading_zeros w n = w - bit_length n"

definition byte_bits :: "8 word \<Rightarrow> bool list" where
  "byte_bits b = map (\<lambda>j. bit b (7 - j)) [0..<8]"

definition bits_of :: "address \<Rightarrow> bool list" where
  "bits_of x = concat (map byte_bits x)"

definition first_diff :: "bool list \<Rightarrow> bool list \<Rightarrow> nat" where
  "first_diff xs ys = length (takeWhile (\<lambda>(a, b). a = b) (zip xs ys))"

text \<open>The three-way comparison of two numbers, as \<^verbatim>\<open>proxCmp\<close> reports it.\<close>

definition cmp3 :: "nat \<Rightarrow> nat \<Rightarrow> int" where
  "cmp3 x y = (if x > y then 1 else if x < y then -1 else 0)"

text \<open>
  The distance of an address to a target as a number: the big-endian value of the bytes
  \<^verbatim>\<open>a[i] ^ target[i]\<close> that \<^verbatim>\<open>proxCmp\<close> compares, \<^verbatim>\<open>i\<close> ranging over the target.
\<close>

definition dist :: "address \<Rightarrow> address \<Rightarrow> nat" where
  "dist t a = be_val (map (\<lambda>i. a ! i XOR t ! i) [0..<length t])"

text \<open>
  Go's \<^verbatim>\<open>copy(dst, src)\<close> writes the first \<open>min (len dst) (len src)\<close> elements of
  \<^verbatim>\<open>src\<close> over those of \<^verbatim>\<open>dst\<close>, also when the two overlap; the result is the new
  content of \<^verbatim>\<open>dst\<close>.
\<close>

definition go_copy :: "'a list \<Rightarrow> 'a list \<Rightarrow> 'a list" where
  "go_copy dst src = take (length dst) src @ drop (length src) dst"

section \<open>The routing table (common/kademlia/kademlia.go)\<close>

text \<open>
  A \<^verbatim>\<open>Node\<close> is an interface with the methods \<^verbatim>\<open>Addr()\<close>, \<^verbatim>\<open>Url()\<close>,
  \<^verbatim>\<open>LastActive()\<close> and \<^verbatim>\<open>Drop()\<close>; the table only reads the first three. A node
  is modelled by the values these methods return. A \<^verbatim>\<open>time.Time\<close> is modelled by its
  instant, an integer, with \<open>zero_time\<close> the instant of the zero value
  \<^verbatim>\<open>time.Time{}\<close>; \<^verbatim>\<open>Before\<close> is \<open><\<close>. The location a time carries is not
  modelled, so \<^verbatim>\<open>==\<close> on times is equality of instants, and a node's
  \<^verbatim>\<open>LastActive()\<close> returns the same time at every call. Go's \<^verbatim>\<open>int\<close> is modelled
  by \<open>int\<close>: the counters move by one per operation and stay far from the 64-bit
  bounds.

  A panic of the Go runtime (an index out of range, a negative length for
  \<^verbatim>\<open>make\<close>) is the value \<open>None\<close>.
\<close>

record node =
  Addr :: address
  Url :: string
  LastActive :: int

definition zero_time :: int where
  "zero_time = 0"

record bucket =
  b_size :: int
  b_nodes :: "node list"

record NodeRecord =
  nr_Address :: address
  nr_Url :: string
  nr_Active :: int
  nr_node :: "node option"

text \<open>
  The fields of \<^verbatim>\<open>Kademlia\<close> the operations below read or write. \<open>started\<close> stands
  for \<^verbatim>\<open>quitC != nil\<close>. A \<^verbatim>\<open>*NodeRecord\<close> may be nil: \<open>None\<close>.
\<close>

record Kademlia =
  addr :: address
  MaxProx :: int
  MaxProxBinSize :: int
  BucketSize :: int
  currentMaxBucketSize :: int
  nodeDB :: "NodeRecord option list list"
  proxLimit :: int
  proxSize :: int
  count :: int
  buckets :: "bucket list"
  started :: bool

datatype kad_error = InsufficientNodes nat int

text \<open>\<^verbatim>\<open>New()\<close> returns \<^verbatim>\<open>&Kademlia{}\<close>: every field has its zero value.\<close>

definition New :: Kademlia where
  "New = \<lparr> addr = replicate 32 0, MaxProx = 0, MaxProxBinSize = 0, BucketSize = 0,
           currentMaxBucketSize = 0, nodeDB = [], proxLimit = 0, proxSize = 0, count = 0,
           buckets = [], started = False \<rparr>"

definition Count :: "Kademlia \<Rightarrow> int" where
  "Count self = count self"

definition Start :: "Kademlia \<Rightarrow> address \<Rightarrow> Kademlia option" where
  "Start self a =
     (if started self then Some self
      else
        let self = self\<lparr>addr := a\<rparr>;
            self = (if MaxProx self = 0 then self\<lparr>MaxProx := 255\<rparr> else self);
            self = (if BucketSize self = 0 then self\<lparr>BucketSize := 20\<rparr> else self);
            self = (if MaxProxBinSize self = 0
                    then self\<lparr>MaxProxBinSize := BucketSize self\<rparr> else self)
        in if MaxProx self + 1 < 0 then None
           else Some (self\<lparr>buckets := replicate (nat (MaxProx self + 1))
                                         \<lparr>b_size = BucketSize self, b_nodes = []\<rparr>,
                            nodeDB := replicate (8 * length (addr self)) [],
                            started := True\<rparr>))"

definition proximityBin :: "Kademlia \<Rightarrow> address \<Rightarrow> int" where
  "proximityBin self other =
     (let ret = int (proximity (addr self) other)
      in if ret > MaxProx self then MaxProx self else ret)"

text \<open>\<^verbatim>\<open>self.buckets[i]\<close>, read and written through the pointer it holds.\<close>

definition bucket_at :: "Kademlia \<Rightarrow> int \<Rightarrow> bucket option" where
  "bucket_at self i =
     (if 0 \<le> i \<and> i < int (length (buckets self)) then Some (buckets self ! nat i) else None)"

definition set_bucket :: "Kademlia \<Rightarrow> int \<Rightarrow> bucket \<Rightarrow> Kademlia" where
  "set_bucket self i b = self\<lparr>buckets := (buckets self)[nat i := b]\<rparr>"

subsection \<open>Buckets\<close>

text \<open>
  \<^verbatim>\<open>worstNode\<close>: the loop over \<^verbatim>\<open>self.nodes\<close> with its two variables \<^verbatim>\<open>oldest\<close>
  (starting as the zero time) and \<^verbatim>\<open>index\<close> (starting as 0).
\<close>

fun worstNode_loop :: "node list \<Rightarrow> nat \<Rightarrow> int \<Rightarrow> nat \<Rightarrow> nat" where
  "worstNode_loop [] i oldest index = index"
| "worstNode_loop (n # ns) i oldest index =
     (if oldest = zero_time \<or> LastActive n < oldest
      then worstNode_loop ns (Suc i) (LastActive n) i
      else worstNode_loop ns (Suc i) oldest index)"

definition bucket_worstNode :: "bucket \<Rightarrow> nat" where
  "bucket_worstNode self = worstNode_loop (b_nodes self) 0 zero_time 0"

text \<open>
  \<^verbatim>\<open>insert\<close>; its error result is always nil and is left out. Writing
  \<^verbatim>\<open>self.nodes[worst]\<close> panics when the index is not below the length.
\<close>

definition bucket_insert :: "bucket \<Rightarrow> node \<Rightarrow> bucket option" where
  "bucket_insert self n =
     (if int (length (b_nodes self)) \<ge> b_size self
      then (let worst = bucket_worstNode self
            in if worst < length (b_nodes self)
               then Some (self\<lparr>b_nodes := (b_nodes self)[worst := n]\<rparr>)
               else None)
      else Some (self\<lparr>b_nodes := b_nodes self @ [n]\<rparr>))"

subsection \<open>The proximity limit\<close>

text \<open>The loop of the first case of \<^verbatim>\<open>adjustProx\<close>.\<close>

function adjustProx_up :: "Kademlia \<Rightarrow> Kademlia option" where
  "adjustProx_up self =
     (if proxLimit self < MaxProx self
      then (case bucket_at self (proxLimit self) of
              None \<Rightarrow> None
            | Some b \<Rightarrow>
                if length (b_nodes b) > 0
                then adjustProx_up (self\<lparr>proxSize := proxSize self - int (length (b_nodes b)),
                                         proxLimit := proxLimit self + 1\<rparr>)
                else Some self)
      else Some self)"
  by pat_completeness auto
termination
  by (relation "measure (\<lambda>self. nat (MaxProx self - proxLimit self))") auto

text \<open>The loop of the last case: \<^verbatim>\<open>for i := self.proxLimit - 1; i > r; i--\<close>.\<close>

function adjustProx_down :: "Kademlia \<Rightarrow> int \<Rightarrow> int \<Rightarrow> Kademlia option" where
  "adjustProx_down self i r =
     (if i > r
      then (case bucket_at self i of
              None \<Rightarrow> None
            | Some b \<Rightarrow>
                adjustProx_down (self\<lparr>proxSize := proxSize self + int (length (b_nodes b))\<rparr>)
                  (i - 1) r)
      else Some self)"
  by pat_completeness auto
termination
  by (relation "measure (\<lambda>(self, i, r). nat (i - r))") auto

definition adjustProx :: "Kademlia \<Rightarrow> int \<Rightarrow> int \<Rightarrow> Kademlia option" where
  "adjustProx self r add =
     (if add > 0 \<and> r = proxLimit self
      then adjustProx_up (self\<lparr>proxLimit := proxLimit self + add\<rparr>)
      else if add > 0 \<and> r > proxLimit self \<and> proxSize self + add > MaxProxBinSize self
      then (case bucket_at self r of
              None \<Rightarrow> None
            | Some b \<Rightarrow>
                Some (self\<lparr>proxLimit := proxLimit self + 1,
                           proxSize := proxSize self - (int (length (b_nodes b)) - add)\<rparr>))
      else if add > 0 \<and> r > proxLimit self
      then Some (self\<lparr>proxSize := proxSize self + add\<rparr>)
      else if add < 0 \<and> r < proxLimit self
      then (case bucket_at self r of
              None \<Rightarrow> None
            | Some b \<Rightarrow>
                if length (b_nodes b) = 0
                then (case adjustProx_down self (proxLimit self - 1) r of
                        None \<Rightarrow> None
                      | Some self' \<Rightarrow> Some (self'\<lparr>proxLimit := r\<rparr>))
                else Some self)
      else Some self)"

subsection \<open>Adding and removing nodes\<close>

text \<open>
  \<^verbatim>\<open>AddNode\<close>, up to the goroutine it starts: that one runs later, under another lock,
  and writes only \<^verbatim>\<open>nodeIndex\<close> and \<^verbatim>\<open>nodeDB\<close>. The error of
  \<^verbatim>\<open>bucket.insert\<close> is always nil, so the early return is never taken.
\<close>

definition AddNode :: "Kademlia \<Rightarrow> node \<Rightarrow> Kademlia option" where
  "AddNode self n =
     (let index = proximityBin self (Addr n)
      in case bucket_at self index of
           None \<Rightarrow> None
         | Some b \<Rightarrow>
             (case bucket_insert b n of
                None \<Rightarrow> None
              | Some b' \<Rightarrow>
                  let self = set_bucket self index b';
                      self = self\<lparr>count := count self + 1\<rparr>
                  in if index \<ge> proxLimit self then adjustProx self index 1 else Some self))"

text \<open>
  The loop of \<^verbatim>\<open>RemoveNode\<close>: \<^verbatim>\<open>i\<close> moves on also after an entry was cut out at
  \<^verbatim>\<open>i\<close>, and the bound \<^verbatim>\<open>len(bucket.nodes)\<close> is read again in every round.
\<close>

function remove_loop :: "address \<Rightarrow> node list \<Rightarrow> nat \<Rightarrow> node list" where
  "remove_loop a ns i =
     (if i < length ns
      then (if a = Addr (ns ! i)
            then remove_loop a (take i ns @ drop (i + 1) ns) (i + 1)
            else remove_loop a ns (i + 1))
      else ns)"
  by pat_completeness auto
termination
  by (relation "measure (\<lambda>(a, ns, i). length ns - i)") auto

text \<open>
  \<^verbatim>\<open>RemoveNode\<close> returns the error together with the changed table: the error is set
  and the function carries on. The callback \<^verbatim>\<open>GetNode\<close> runs in a goroutine of its
  own and is left out.
\<close>

definition RemoveNode :: "Kademlia \<Rightarrow> node \<Rightarrow> (kad_error option \<times> Kademlia) option" where
  "RemoveNode self n =
     (let index = proximityBin self (Addr n)
      in case bucket_at self index of
           None \<Rightarrow> None
         | Some b \<Rightarrow>
             let b' = b\<lparr>b_nodes := remove_loop (Addr n) (b_nodes b) 0\<rparr>;
                 self = set_bucket self index b';
                 self = self\<lparr>count := count self - 1\<rparr>;
                 err = (if int (length (b_nodes b')) < b_size b'
                        then Some (InsufficientNodes (length (b_nodes b')) index) else None)
             in if length (b_nodes b') = 0
                then (case adjustProx self index (-1) of
                        None \<Rightarrow> None
                      | Some self' \<Rightarrow> Some (err, self'))
                else Some (err, self))"

text \<open>Sequences of operations on a table.\<close>

datatype op = Add node | Remove node

fun apply_op :: "Kademlia \<Rightarrow> op \<Rightarrow> Kademlia option" where
  "apply_op self (Add n) = AddNode self n"
| "apply_op self (Remove n) = map_option snd (RemoveNode self n)"

fun run :: "Kademlia \<Rightarrow> op list \<Rightarrow> Kademlia option" where
  "run self [] = Some self"
| "run self (x # xs) = (case apply_op self x of None \<Rightarrow> None | Some self' \<Rightarrow> run self' xs)"

text \<open>A table is configured, started at an address, and then operated on.\<close>

definition started_run :: "Kademlia \<Rightarrow> address \<Rightarrow> op list \<Rightarrow> Kademlia option" where
  "started_run conf a ops = (case Start conf a of None \<Rightarrow> None | Some self \<Rightarrow> run self ops)"

text \<open>The size of every bucket, and the sizes from a bin on.\<close>

definition bin_sizes :: "Kademlia \<Rightarrow> nat list" where
  "bin_sizes self = map (\<lambda>b. length (b_nodes b)) (buckets self)"

definition stored :: "Kademlia \<Rightarrow> nat" where
  "stored self = sum_list (bin_sizes self)"

text \<open>
  A table before \<^verbatim>\<open>Start\<close>: \<^verbatim>\<open>New()\<close> with the three exported parameters set
  (0 leaves the default).
\<close>

definition configured :: "int \<Rightarrow> int \<Rightarrow> int \<Rightarrow> Kademlia" where
  "configured mp mbs bs = New\<lparr>MaxProx := mp, MaxProxBinSize := mbs, BucketSize := bs\<rparr>"

text \<open>
  The invariant of a started table: the bucket array has \<open>MaxProx + 1\<close> entries, the
  proximity limit stays within \<open>0 .. MaxProx + 1\<close>, and every bucket has a positive
  capacity that its length does not exceed.
\<close>

definition bucket_ok :: "bucket \<Rightarrow> bool" where
  "bucket_ok b \<longleftrightarrow> 0 < b_size b \<and> int (length (b_nodes b)) \<le> b_size b"

definition kad_inv :: "Kademlia \<Rightarrow> bool" where
  "kad_inv self \<longleftrightarrow>
     0 \<le> MaxProx self
     \<and> int (length (buckets self)) = MaxProx self + 1
     \<and> 0 \<le> proxLimit self \<and> proxLimit self \<le> MaxProx self + 1
     \<and> list_all bucket_ok (buckets self)"

subsection \<open>Nearest nodes\<close>

text \<open>
  \<^verbatim>\<open>sort.Search(n, f)\<close> of Go's library is a binary search with the two indices
  \<^verbatim>\<open>i\<close> and \<^verbatim>\<open>j\<close>: \<^verbatim>\<open>h := int(uint(i+j) >> 1)\<close>, then \<^verbatim>\<open>i = h + 1\<close> if
  \<^verbatim>\<open>!f(h)\<close> and \<^verbatim>\<open>j = h\<close> otherwise.
\<close>

function Search_loop :: "nat \<Rightarrow> nat \<Rightarrow> (nat \<Rightarrow> bool) \<Rightarrow> nat" where
  "Search_loop i j f =
     (if i < j
      then (let h = (i + j) div 2
            in if \<not> f h then Search_loop (h + 1) j f else Search_loop i h f)
      else i)"
  by pat_completeness auto
termination
  by (relation "measure (\<lambda>(i, j, f). j - i)") auto

definition sort_Search :: "nat \<Rightarrow> (nat \<Rightarrow> bool) \<Rightarrow> nat" where
  "sort_Search n f = Search_loop 0 n f"

record nodesByDistance =
  nbd_nodes :: "node list"
  nbd_target :: address

text \<open>
  \<^verbatim>\<open>push\<close>. \<^verbatim>\<open>copy(h.nodes[ix+1:], h.nodes[ix:])\<close> moves the entries from \<^verbatim>\<open>ix\<close> on
  one place up, the last one falling out; then \<^verbatim>\<open>h.nodes[ix] = node\<close>.
\<close>

definition copy_up :: "node list \<Rightarrow> nat \<Rightarrow> node list" where
  "copy_up ns ix = take (ix + 1) ns @ go_copy (drop (ix + 1) ns) (drop ix ns)"

definition push :: "nodesByDistance \<Rightarrow> node \<Rightarrow> int \<Rightarrow> nodesByDistance" where
  "push h n maxn =
     (let ix = sort_Search (length (nbd_nodes h))
                 (\<lambda>i. proxCmp (nbd_target h) (Addr (nbd_nodes h ! i)) (Addr n) \<ge> 0);
          h = (if int (length (nbd_nodes h)) < maxn
               then h\<lparr>nbd_nodes := nbd_nodes h @ [n]\<rparr> else h)
      in if ix < length (nbd_nodes h)
         then h\<lparr>nbd_nodes := (copy_up (nbd_nodes h) ix)[ix := n]\<rparr>
         else h)"

text \<open>
  The loop of \<^verbatim>\<open>getNodes\<close>, with its variables \<^verbatim>\<open>start\<close>, \<^verbatim>\<open>down\<close>, \<^verbatim>\<open>n\<close> and
  \<^verbatim>\<open>r\<close>; \<^verbatim>\<open>index\<close> and \<^verbatim>\<open>limit\<close> no longer change inside it. \<open>maxn\<close> is the
  parameter \<^verbatim>\<open>max\<close>. \<open>getNodes_break\<close> is the condition of the \<^verbatim>\<open>break\<close> after
  the inner loop. Reading \<^verbatim>\<open>self.buckets[start]\<close> outside the array is a panic.
\<close>

definition getNodes_break ::
  "Kademlia \<Rightarrow> int \<Rightarrow> int \<Rightarrow> int \<Rightarrow> int \<Rightarrow> bool \<Rightarrow> int \<Rightarrow> bool" where
  "getNodes_break self maxn limit index start down n \<longleftrightarrow>
     maxn = 0 \<and> start \<le> index \<and> (n > 0 \<or> start = 0)
     \<or> maxn > 0 \<and> down \<and> start \<le> index
        \<and> (n \<ge> limit \<or> n = Count self \<or> start = 0)"

function getNodes_loop ::
  "Kademlia \<Rightarrow> int \<Rightarrow> int \<Rightarrow> int \<Rightarrow> int \<Rightarrow> bool \<Rightarrow> int \<Rightarrow> nodesByDistance
     \<Rightarrow> nodesByDistance option" where
  "getNodes_loop self maxn limit index start down n r =
     (case bucket_at self start of
        None \<Rightarrow> None
      | Some b \<Rightarrow>
          (let r = foldl (\<lambda>r nd. push r nd limit) r (b_nodes b);
               n = n + int (length (b_nodes b))
           in if getNodes_break self maxn limit index start down n
              then Some r
              else if down then getNodes_loop self maxn limit index (start - 1) True n r
              else if start = MaxProx self
              then (if index = 0 then Some r
                    else getNodes_loop self maxn limit index (index - 1) True n r)
              else getNodes_loop self maxn limit index (start + 1) False n r))"
  by pat_completeness auto
termination
  by (relation "measures [\<lambda>(self, maxn, limit, index, start, down, n, r). if down then 0 else 1,
                          \<lambda>(self, maxn, limit, index, start, down, n, r).
                             if down then nat (start + 1)
                             else nat (int (length (buckets self)) - start)]")
     (auto simp: bucket_at_def split: if_splits)

definition getNodes :: "Kademlia \<Rightarrow> address \<Rightarrow> int \<Rightarrow> nodesByDistance option" where
  "getNodes self target maxn =
     (let r = \<lparr>nbd_nodes = [], nbd_target = target\<rparr>;
          index = proximityBin self target;
          start = index;
          down = False;
          (index, start, down) =
             (if index \<ge> proxLimit self then (proxLimit self, MaxProx self, True)
              else (index, start, down));
          limit = (if maxn = 0 then 1000 else maxn)
      in getNodes_loop self maxn limit index start down 0 r)"

definition GetNodes :: "Kademlia \<Rightarrow> address \<Rightarrow> int \<Rightarrow> node list option" where
  "GetNodes self target maxn = map_option nbd_nodes (getNodes self target maxn)"

text \<open>
  For the statement of what \<open>getNodes\<close> returns: the nodes the loop passes to
  \<open>push\<close>, in the order it does. The function walks the buckets exactly as
  \<open>getNodes_loop\<close> does and keeps the nodes in place of the result \<open>r\<close>.
\<close>

function getNodes_visited ::
  "Kademlia \<Rightarrow> int \<Rightarrow> int \<Rightarrow> int \<Rightarrow> int \<Rightarrow> bool \<Rightarrow> int \<Rightarrow> node list option" where
  "getNodes_visited self maxn limit index start down n =
     (case bucket_at self start of
        None \<Rightarrow> None
      | Some b \<Rightarrow>
          (let n = n + int (length (b_nodes b))
           in if getNodes_break self maxn limit index start down n
              then Some (b_nodes b)
              else map_option (\<lambda>vs. b_nodes b @ vs)
                (if down then getNodes_visited self maxn limit index (start - 1) True n
                 else if start = MaxProx self
                 then (if index = 0 then Some []
                       else getNodes_visited self maxn limit index (index - 1) True n)
                 else getNodes_visited self maxn limit index (start + 1) False n)))"
  by pat_completeness auto
termination
  by (relation "measures [\<lambda>(self, maxn, limit, index, start, down, n). if down then 0 else 1,
                          \<lambda>(self, maxn, limit, index, start, down, n).
                             if down then nat (start + 1)
                             else nat (int (length (buckets self)) - start)]")
     (auto simp: bucket_at_def split: if_splits)

definition visited :: "Kademlia \<Rightarrow> address \<Rightarrow> int \<Rightarrow> node list option" where
  "visited self target maxn =
     (let index = proximityBin self target;
          start = index;
          down = False;
          (index, start, down) =
             (if index \<ge> proxLimit self then (proxLimit self, MaxProx self, True)
              else (index, start, down));
          limit = (if maxn = 0 then 1000 else maxn)
      in getNodes_visited self maxn limit index start down 0)"

subsection \<open>Node records\<close>

text \<open>
  \<^verbatim>\<open>getNodeRecord\<close> returns the pointer stored at \<^verbatim>\<open>nodeDB[row][col]\<close>, or nil when
  an index is out of range.
\<close>

definition getNodeRecord :: "Kademlia \<Rightarrow> int \<Rightarrow> int \<Rightarrow> NodeRecord option" where
  "getNodeRecord self row col =
     (if row \<ge> 0 \<and> row < int (length (nodeDB self))
         \<and> col \<ge> 0 \<and> col < int (length (nodeDB self ! nat row))
      then nodeDB self ! nat row ! nat col
      else None)"

text \<open>
  \<^verbatim>\<open>GetNodeRecords\<close>: the inner loop \<^verbatim>\<open>for i, b := range self.buckets\<close> of one
  round, then the outer loop \<^verbatim>\<open>for max > 0\<close> (\<open>maxn\<close> below). The statement in the innermost branch is
  \<^verbatim>\<open>nrs = append(nrs)\<close>, an append of no element. The error result is always nil and is
  left out.
\<close>

fun GetNodeRecords_round ::
  "Kademlia \<Rightarrow> int \<Rightarrow> bucket list \<Rightarrow> int \<Rightarrow> NodeRecord list \<Rightarrow> NodeRecord list" where
  "GetNodeRecords_round self round [] i nrs = nrs"
| "GetNodeRecords_round self round (b # bs) i nrs =
     GetNodeRecords_round self round bs (i + 1)
       (if int (length (b_nodes b)) + round < currentMaxBucketSize self
        then (case getNodeRecord self i round of
                Some nr \<Rightarrow> nrs @ []
              | None \<Rightarrow> nrs)
        else nrs)"

function GetNodeRecords_loop ::
  "Kademlia \<Rightarrow> int \<Rightarrow> int \<Rightarrow> NodeRecord list \<Rightarrow> NodeRecord list" where
  "GetNodeRecords_loop self maxn round nrs =
     (if maxn > 0
      then GetNodeRecords_loop self (maxn - 1) (round + 1)
             (GetNodeRecords_round self round (buckets self) 0 nrs)
      else nrs)"
  by pat_completeness auto
termination
  by (relation "measure (\<lambda>(self, maxn, round, nrs). nat maxn)") auto




section \<open>The wire protocol of a peer session (bzz/protocol.go)\<close>

text \<open>
  The two copies of the protocol file agree on \<^verbatim>\<open>handleStatus\<close>, \<^verbatim>\<open>handle\<close>,
  \<^verbatim>\<open>runBzzProtocol\<close> and \<^verbatim>\<open>storeRequestLoop\<close> up to logging and to how the remote
  address is kept (\<^verbatim>\<open>self.node\<close> or \<^verbatim>\<open>self.remoteAddr\<close>); one model covers both.
\<close>

type_synonym bytes = "8 word list"

definition Version :: "64 word" where
  "Version = 0"

definition NetworkId :: "64 word" where
  "NetworkId = 0"

definition ProtocolMaxMsgSize :: "32 word" where
  "ProtocolMaxMsgSize = 10 * 1024 * 1024"

definition statusMsg :: "64 word" where
  "statusMsg = 0"

definition storeRequestMsg :: "64 word" where
  "storeRequestMsg = 1"

definition retrieveRequestMsg :: "64 word" where
  "retrieveRequestMsg = 2"

definition peersMsg :: "64 word" where
  "peersMsg = 3"

datatype bzz_error =
  ErrMsgTooLarge | ErrDecode | ErrInvalidMsgCode | ErrVersionMismatch
  | ErrNetworkIdMismatch | ErrNoStatusMsg | ErrExtraStatusMsg

text \<open>
  An error a function of the session returns: one made by \<^verbatim>\<open>protoError\<close> from a code
  of the enumeration, or the error \<^verbatim>\<open>rw.ReadMsg\<close> or \<^verbatim>\<open>p2p.Send\<close> returned.
\<close>

datatype session_error = ProtoError bzz_error | TransportError

record peerAddr =
  pa_IP :: bytes
  pa_Port :: "16 word"
  pa_ID :: bytes

record statusMsgData =
  st_Version :: "64 word"
  st_ID :: string
  st_Addr :: "peerAddr option"
  st_NetworkId :: "64 word"

record storeRequestMsgData =
  sr_Key :: bytes
  sr_SData :: bytes
  sr_Id :: "64 word"

record retrieveRequestMsgData =
  rr_Key :: "bytes option"
  rr_Id :: "64 word"
  rr_MaxSize :: "64 word"
  rr_MaxPeers :: "64 word"

record peersMsgData =
  pm_Peers :: "peerAddr list"
  pm_Key :: bytes
  pm_Id :: "64 word"

text \<open>
  A \<^verbatim>\<open>p2p.Msg\<close>: its code, its size and its payload. \<^verbatim>\<open>msg.Decode\<close> belongs to
  the packages p2p and rlp; a message carries what decoding its payload into each of the
  four structs gives (\<open>None\<close>: \<^verbatim>\<open>Decode\<close> returns an error).
\<close>

record msg =
  Code :: "64 word"
  Size :: "32 word"
  as_status :: "statusMsgData option"
  as_storeRequest :: "storeRequestMsgData option"
  as_retrieveRequest :: "retrieveRequestMsgData option"
  as_peers :: "peersMsgData option"

datatype read_result = ReadError | ReadOk msg

text \<open>What the session hands to the net store and to the hive.\<close>

datatype request =
  AddStoreRequest storeRequestMsgData
  | AddRetrieveRequest retrieveRequestMsgData
  | AddPeerEntries peersMsgData

text \<open>What the session passes to \<^verbatim>\<open>p2p.Send\<close>.\<close>

datatype outgoing =
  SendStatus statusMsgData
  | SendStoreRequest storeRequestMsgData

text \<open>
  The state a session works on. \<open>reads\<close> are the results \<^verbatim>\<open>rw.ReadMsg\<close> will give,
  call after call; with none left the call does not return. \<open>broken\<close> says that
  \<^verbatim>\<open>p2p.Send\<close> returns an error; \<open>sent\<close> lists the messages passed to it.
  \<open>ident\<close> stands for the pointer \<^verbatim>\<open>self\<close>, which \<^verbatim>\<open>peer{bzzProtocol: self}\<close>
  wraps. \<open>quit\<close> says that \<^verbatim>\<open>quitC\<close> is closed.

  Modelled from the spec: the hive (\<^verbatim>\<open>hive.addPeer\<close>, \<^verbatim>\<open>hive.removePeer\<close>) is not
  among the sources; it "maintains addr -> PeerSession for connected peers", so it is the
  list of the sessions registered, \<open>addPeer\<close> adding one and \<open>removePeer\<close> taking it out.
  The net store's \<^verbatim>\<open>addStoreRequest\<close> and \<^verbatim>\<open>addRetrieveRequest\<close> and the hive's
  \<^verbatim>\<open>addPeerEntries\<close> are recorded in \<open>requests\<close> and not interpreted.
\<close>

record session =
  ident :: nat
  localAddr :: peerAddr
  remoteAddr :: "peerAddr option"
  reads :: "read_result list"
  broken :: bool
  sent :: "outgoing list"
  hive :: "nat list"
  requests :: "request list"
  quit :: bool

datatype 'a outcome = Done 'a | Blocked | Panic

definition addPeer :: "session \<Rightarrow> session" where
  "addPeer self = self\<lparr>hive := hive self @ [ident self]\<rparr>"

definition removePeer :: "session \<Rightarrow> session" where
  "removePeer self = self\<lparr>hive := removeAll (ident self) (hive self)\<rparr>"

definition Send :: "session \<Rightarrow> outgoing \<Rightarrow> session_error option \<times> session" where
  "Send self m =
     (if broken self then Some TransportError else None, self\<lparr>sent := sent self @ [m]\<rparr>)"

definition ReadMsg :: "session \<Rightarrow> (read_result \<times> session) option" where
  "ReadMsg self =
     (case reads self of [] \<Rightarrow> None | r # rs \<Rightarrow> Some (r, self\<lparr>reads := rs\<rparr>))"

definition handleStatus :: "session \<Rightarrow> (session_error option \<times> session) outcome" where
  "handleStatus self =
     (let handshake = \<lparr>st_Version = Version, st_ID = ''honey'',
                        st_Addr = Some (localAddr self), st_NetworkId = NetworkId\<rparr>
      in case Send self (SendStatus handshake) of
           (Some err, self) \<Rightarrow> Done (Some err, self)
         | (None, self) \<Rightarrow>
             (case ReadMsg self of
                None \<Rightarrow> Blocked
              | Some (ReadError, self) \<Rightarrow> Done (Some TransportError, self)
              | Some (ReadOk m, self) \<Rightarrow>
                  if Code m \<noteq> statusMsg then Done (Some (ProtoError ErrNoStatusMsg), self)
                  else if Size m > ProtocolMaxMsgSize
                  then Done (Some (ProtoError ErrMsgTooLarge), self)
                  else (case as_status m of
                          None \<Rightarrow> Done (Some (ProtoError ErrDecode), self)
                        | Some status \<Rightarrow>
                            if st_NetworkId status \<noteq> NetworkId
                            then Done (Some (ProtoError ErrNetworkIdMismatch), self)
                            else if Version \<noteq> st_Version status
                            then Done (Some (ProtoError ErrVersionMismatch), self)
                            else (case st_Addr status of
                                    None \<Rightarrow> Panic
                                  | Some a \<Rightarrow>
                                      Done (None, addPeer (self\<lparr>remoteAddr := Some a\<rparr>))))))"

definition handle :: "session \<Rightarrow> (session_error option \<times> session) outcome" where
  "handle self =
     (case ReadMsg self of
        None \<Rightarrow> Blocked
      | Some (ReadError, self) \<Rightarrow> Done (Some TransportError, self)
      | Some (ReadOk m, self) \<Rightarrow>
          if Size m > ProtocolMaxMsgSize then Done (Some (ProtoError ErrMsgTooLarge), self)
          else if Code m = statusMsg then Done (Some (ProtoError ErrExtraStatusMsg), self)
          else if Code m = storeRequestMsg
          then (case as_storeRequest m of
                  None \<Rightarrow> Done (Some (ProtoError ErrDecode), self)
                | Some req \<Rightarrow>
                    Done (None, self\<lparr>requests := requests self @ [AddStoreRequest req]\<rparr>))
          else if Code m = retrieveRequestMsg
          then (case as_retrieveRequest m of
                  None \<Rightarrow> Done (Some (ProtoError ErrDecode), self)
                | Some req \<Rightarrow>
                    if rr_Key req = None then Done (Some (ProtoError ErrDecode), self)
                    else Done (None, self\<lparr>requests := requests self @ [AddRetrieveRequest req]\<rparr>))
          else if Code m = peersMsg
          then (case as_peers m of
                  None \<Rightarrow> Done (Some (ProtoError ErrDecode), self)
                | Some req \<Rightarrow>
                    Done (None, self\<lparr>requests := requests self @ [AddPeerEntries req]\<rparr>))
          else Done (Some (ProtoError ErrInvalidMsgCode), self))"

text \<open>
  The message loop of \<^verbatim>\<open>runBzzProtocol\<close> with the \<^verbatim>\<open>close(self.quitC)\<close> after it.
  Every round that does not block takes one result off \<open>reads\<close>; the recursion is on
  their number, \<open>k\<close> counting the results left when the round starts.
\<close>

fun message_loop :: "nat \<Rightarrow> session \<Rightarrow> (session_error \<times> session) outcome" where
  "message_loop 0 self = Blocked"
| "message_loop (Suc k) self =
     (case handle self of
        Blocked \<Rightarrow> Blocked
      | Panic \<Rightarrow> Panic
      | Done (Some err, self) \<Rightarrow> Done (err, (removePeer self)\<lparr>quit := True\<rparr>)
      | Done (None, self) \<Rightarrow> message_loop k self)"

text \<open>
  \<^verbatim>\<open>runBzzProtocol\<close>, from the handshake on. The goroutine it starts first,
  \<^verbatim>\<open>storeRequestLoop\<close>, runs beside it and is modelled below.
\<close>

definition runBzzProtocol :: "session \<Rightarrow> (session_error \<times> session) outcome" where
  "runBzzProtocol self =
     (case handleStatus self of
        Blocked \<Rightarrow> Blocked
      | Panic \<Rightarrow> Panic
      | Done (Some err, self) \<Rightarrow> Done (err, self)
      | Done (None, self) \<Rightarrow> message_loop (length (reads self)) self)"

subsection \<open>The pending-store loop\<close>

text \<open>
  Modelled from the spec: \<^verbatim>\<open>LDBDatabase\<close> and the LevelDB iterator are not among the
  sources. The request database is "a KV store with get, put, delete and iter"; its values
  are never read here, so it is the list of its keys in ascending bytewise order. An
  iterator works on the keys the database had when the iterator was made; it is the list
  of those keys from its position on (\<open>[]\<close>: not valid), and \<open>None\<close> is the nil
  iterator the variable \<^verbatim>\<open>it\<close> starts with.
\<close>

definition db_Put :: "bytes list \<Rightarrow> bytes \<Rightarrow> bytes list" where
  "db_Put ks k = (if k \<in> set ks then ks else insort k ks)"

definition db_Delete :: "bytes list \<Rightarrow> bytes \<Rightarrow> bytes list" where
  "db_Delete ks k = removeAll k ks"

definition it_Seek :: "bytes list \<Rightarrow> bytes \<Rightarrow> bytes list" where
  "it_Seek ks k = dropWhile (\<lambda>x. x < k) ks"

definition it_Key :: "bytes list \<Rightarrow> bytes" where
  "it_Key rest = (case rest of [] \<Rightarrow> [] | k # _ \<Rightarrow> k)"

definition it_Next :: "bytes list \<Rightarrow> bytes list" where
  "it_Next rest = tl rest"

record chunk =
  ch_Key :: bytes
  ch_SData :: bytes

datatype event = Sent outgoing | Deleted bytes | Slept

text \<open>
  What the loop reads but does not write: the key \<^verbatim>\<open>self.addrKey()\<close> of the peer, the
  chunk store \<^verbatim>\<open>self.netStore.localStore.dbStore\<close> (\<open>None\<close>: \<^verbatim>\<open>Get\<close> returns an
  error), the identifiers \<^verbatim>\<open>generateId()\<close> gives, call after call, and whether
  \<^verbatim>\<open>quitC\<close> is closed when the round looks at it.
\<close>

record store_env =
  addrKey :: bytes
  dbStore :: "bytes \<Rightarrow> chunk option"
  generateId :: "nat \<Rightarrow> 64 word"
  quitC_closed :: bool

text \<open>
  The variables of the loop (\<^verbatim>\<open>key\<close>, \<^verbatim>\<open>n\<close>, \<^verbatim>\<open>it\<close>), the request database, the
  number of identifiers drawn, and the trace of what the loop did, in order.
\<close>

record store_loop =
  sl_key :: bytes
  sl_n :: int
  sl_it :: "bytes list option"
  requestDb :: "bytes list"
  ids_drawn :: nat
  trace :: "event list"

datatype ctl = Continue | Break

definition start_key :: "store_env \<Rightarrow> bytes" where
  "start_key env = go_copy (replicate 64 0) (addrKey env)"

text \<open>\<^verbatim>\<open>storeRequest\<close> puts the key \<^verbatim>\<open>addrKey || key\<close> of 64 bytes into the database.\<close>

definition storeRequest :: "store_env \<Rightarrow> bytes list \<Rightarrow> bytes \<Rightarrow> bytes list" where
  "storeRequest env db k =
     (let peerKey = go_copy (replicate 64 0) (addrKey env);
          peerKey = take 32 peerKey @ go_copy (drop 32 peerKey) k
      in db_Put db peerKey)"

text \<open>
  The state \<^verbatim>\<open>storeRequestLoop\<close> starts with, and one round of its loop. A round ends
  with \<^verbatim>\<open>continue\<close> or at the end of the body (\<open>Continue\<close>), or with
  \<^verbatim>\<open>break LOOP\<close> (\<open>Break\<close>). \<open>None\<close> is a panic: a method called on the nil
  iterator, or a key too short to be cut at byte 32.
\<close>

definition storeRequestLoop_init :: "store_env \<Rightarrow> bytes list \<Rightarrow> store_loop" where
  "storeRequestLoop_init env db =
     \<lparr> sl_key = start_key env, sl_n = 0, sl_it = None, requestDb = db, ids_drawn = 0,
       trace = [] \<rparr>"

definition storeRequestLoop_send :: "store_env \<Rightarrow> store_loop \<Rightarrow> chunk \<Rightarrow> (ctl \<times> store_loop) option" where
  "storeRequestLoop_send env st c =
     (let req = \<lparr>sr_Key = ch_Key c, sr_SData = ch_SData c,
                 sr_Id = generateId env (ids_drawn st)\<rparr>;
          st = st\<lparr>ids_drawn := ids_drawn st + 1,
                  trace := trace st @ [Sent (SendStoreRequest req)]\<rparr>;
          st = st\<lparr>sl_n := sl_n st - 1\<rparr>;
          st = st\<lparr>requestDb := db_Delete (requestDb st) (sl_key st),
                  trace := trace st @ [Deleted (sl_key st)]\<rparr>
      in case sl_it st of
           None \<Rightarrow> None
         | Some rest \<Rightarrow>
             let st = st\<lparr>sl_it := Some (it_Next rest)\<rparr>;
                 st = st\<lparr>sl_key := it_Key (it_Next rest)\<rparr>;
                 st = (if length (sl_key st) = 0
                       then (let st = st\<lparr>sl_key := start_key env\<rparr>;
                                 st = (if sl_n st = 0 then st\<lparr>trace := trace st @ [Slept]\<rparr>
                                       else st)
                             in st\<lparr>sl_n := 0\<rparr>)
                       else st)
             in Some (if quitC_closed env then Break else Continue, st))"

definition storeRequestLoop_entry :: "store_env \<Rightarrow> store_loop \<Rightarrow> (ctl \<times> store_loop) option" where
  "storeRequestLoop_entry env st =
     (if length (sl_key st) < 32 then None
      else if take 32 (sl_key st) \<noteq> addrKey env then Some (Continue, st\<lparr>sl_n := 0\<rparr>)
      else (case dbStore env (drop 32 (sl_key st)) of
              None \<Rightarrow>
                Some (Continue, st\<lparr>requestDb := db_Delete (requestDb st) (sl_key st),
                                   trace := trace st @ [Deleted (sl_key st)]\<rparr>)
            | Some c \<Rightarrow> storeRequestLoop_send env st c))"

definition storeRequestLoop_round :: "store_env \<Rightarrow> store_loop \<Rightarrow> (ctl \<times> store_loop) option" where
  "storeRequestLoop_round env st =
     (if sl_n st = 0
      then (let rest = it_Seek (requestDb st) (sl_key st);
                st = st\<lparr>sl_it := Some rest\<rparr>
            in if rest = [] then Some (Continue, st\<lparr>trace := trace st @ [Slept]\<rparr>)
               else storeRequestLoop_entry env (st\<lparr>sl_key := it_Key rest, sl_n := 100\<rparr>))
      else storeRequestLoop_entry env st)"

text \<open>
  The key a round tests: the one the new iterator finds when \<^verbatim>\<open>n == 0\<close>, else the
  current \<^verbatim>\<open>key\<close>.
\<close>

definition examined :: "store_loop \<Rightarrow> bytes option" where
  "examined st =
     (if sl_n st = 0
      then (case it_Seek (requestDb st) (sl_key st) of [] \<Rightarrow> None | k # _ \<Rightarrow> Some k)
      else Some (sl_key st))"

text \<open>Between rounds the iterator is nil only while \<^verbatim>\<open>n == 0\<close>.\<close>

definition loop_ok :: "store_loop \<Rightarrow> bool" where
  "loop_ok st \<longleftrightarrow> sl_n st = 0 \<or> sl_it st \<noteq> None"

section \<open>Concrete inputs\<close>

text \<open>Nodes, messages, sessions and a request queue on which the theorems are run.\<close>

definition node_a :: node where
  "node_a = \<lparr>Addr = 4 # replicate 31 0, Url = ''a'', LastActive = 7\<rparr>"

definition node_b :: node where
  "node_b = \<lparr>Addr = 4 # replicate 31 0, Url = ''b'', LastActive = 8\<rparr>"

definition status_ok :: msg where
  "status_ok = \<lparr>Code = 0, Size = 100,
      as_status = Some \<lparr>st_Version = 0, st_ID = ''honey'',
                         st_Addr = Some \<lparr>pa_IP = [10, 0, 0, 2], pa_Port = 30399, pa_ID = replicate 64 9\<rparr>,
                         st_NetworkId = 0\<rparr>,
      as_storeRequest = None, as_retrieveRequest = None, as_peers = None\<rparr>"

definition session0 :: "read_result list \<Rightarrow> session" where
  "session0 rs = \<lparr>ident = 1, localAddr = \<lparr>pa_IP = [10, 0, 0, 1], pa_Port = 30399, pa_ID = replicate 64 5\<rparr>,
      remoteAddr = None, reads = rs, broken = False, sent = [], hive = [], requests = [], quit = False\<rparr>"

definition status_big :: msg where
  "status_big = status_ok\<lparr>Size := 10485761\<rparr>"

definition example_env :: store_env where
  "example_env =
     \<lparr>addrKey = replicate 32 7,
      dbStore = (\<lambda>k. if k = replicate 32 1
                      then Some \<lparr>ch_Key = replicate 32 1, ch_SData = [1, 2, 3]\<rparr> else None),
      generateId = (\<lambda>i. of_nat (i + 40)), quitC_closed = False\<rparr>"

definition example_queue :: "bytes list" where
  "example_queue =
     storeRequest example_env
       (storeRequest example_env
          (storeRequest (example_env\<lparr>addrKey := replicate 32 9\<rparr>) [] (replicate 32 1))
          (replicate 32 2))
       (replicate 32 1)"

section \<open>Properties of the XOR metric\<close>

subsection \<open>Bit length and big-endian values\<close>

declare bit_length.simps [simp del]

lemma bit_length_le_iff: "bit_length n \<le> k \<longleftrightarrow> n < 2 ^ k"
proof (induction n arbitrary: k rule: bit_length.induct)
  case (1 n)
  show ?case
  proof (cases "n = 0")
    case True
    then show ?thesis by (simp add: bit_length.simps)
  next
    case False
    show ?thesis
    proof (cases k)
      case 0
      with False show ?thesis by (simp add: bit_length.simps)
    next
      case (Suc k')
      have "bit_length n \<le> Suc k' \<longleftrightarrow> bit_length (n div 2) \<le> k'"
        using False by (simp add: bit_length.simps)
      also have "\<dots> \<longleftrightarrow> n div 2 < 2 ^ k'"
        using "1.IH" [OF False] by simp
      also have "\<dots> \<longleftrightarrow> n < 2 ^ Suc k'"
        by (simp add: less_mult_imp_div_less div_less_iff_less_mult mult.commute)
      finally show ?thesis using Suc by simp
    qed
  qed
qed

lemma bit_length_eqI:
  assumes "n < 2 ^ k" and "k = 0 \<or> 2 ^ (k - 1) \<le> n"
  shows "bit_length n = k"
proof (rule antisym)
  show "bit_length n \<le> k" using assms(1) by (simp add: bit_length_le_iff)
  show "k \<le> bit_length n"
  proof (cases k)
    case 0
    then show ?thesis by simp
  next
    case (Suc k')
    with assms(2) have "\<not> n < 2 ^ k'" by simp
    then have "\<not> bit_length n \<le> k'" by (simp add: bit_length_le_iff)
    then show ?thesis using Suc by simp
  qed
qed

lemma bit_length_mono: "m \<le> n \<Longrightarrow> bit_length m \<le> bit_length n"
proof -
  assume "m \<le> n"
  have "n < 2 ^ bit_length n" using bit_length_le_iff [of n "bit_length n"] by simp
  with \<open>m \<le> n\<close> have "m < 2 ^ bit_length n" by simp
  then show ?thesis by (simp add: bit_length_le_iff)
qed

lemma bit_length_zero_iff: "bit_length n = 0 \<longleftrightarrow> n = 0"
  using bit_length_le_iff [of n 0] by simp

lemma bit_length_shift:
  assumes "0 < b" and "r < 2 ^ m"
  shows "bit_length (b * 2 ^ m + r) = bit_length b + m"
proof (rule bit_length_eqI)
  have "b < 2 ^ bit_length b" using bit_length_le_iff [of b "bit_length b"] by simp
  then have "Suc b \<le> 2 ^ bit_length b" by simp
  then have "Suc b * 2 ^ m \<le> 2 ^ bit_length b * 2 ^ m" by (rule mult_le_mono1)
  moreover have "b * 2 ^ m + r < Suc b * 2 ^ m" using assms(2) by simp
  ultimately show "b * 2 ^ m + r < 2 ^ (bit_length b + m)" by (simp add: power_add)
next
  have pos: "0 < bit_length b" using assms(1) bit_length_zero_iff [of b] by simp
  have "\<not> bit_length b \<le> bit_length b - 1" using pos by simp
  then have "2 ^ (bit_length b - 1) \<le> b" by (simp add: bit_length_le_iff)
  then have "2 ^ (bit_length b - 1) * 2 ^ m \<le> b * 2 ^ m" by (rule mult_le_mono1)
  moreover have "(2::nat) ^ (bit_length b - 1) * 2 ^ m = 2 ^ (bit_length b + m - 1)"
    using pos by (simp add: power_add [symmetric])
  ultimately have "2 ^ (bit_length b + m - 1) \<le> b * 2 ^ m" by (simp only:)
  then show "bit_length b + m = 0 \<or> 2 ^ (bit_length b + m - 1) \<le> b * 2 ^ m + r"
    by simp
qed

lemma be_val_foldl: "foldl (\<lambda>acc b. acc * 256 + unat b) a bs = a * 256 ^ length bs + be_val bs"
  unfolding be_val_def
proof (induction bs arbitrary: a)
  case Nil
  show ?case by simp
next
  case (Cons b bs)
  have "foldl (\<lambda>acc b. acc * 256 + unat b) a (b # bs)
        = foldl (\<lambda>acc b. acc * 256 + unat b) (a * 256 + unat b) bs" by simp
  also have "\<dots> = (a * 256 + unat b) * 256 ^ length bs + foldl (\<lambda>acc b. acc * 256 + unat b) 0 bs"
    by (rule Cons.IH)
  also have "\<dots> = a * 256 ^ length (b # bs) + (unat b * 256 ^ length bs + foldl (\<lambda>acc b. acc * 256 + unat b) 0 bs)"
    by (simp add: algebra_simps)
  also have "unat b * 256 ^ length bs + foldl (\<lambda>acc b. acc * 256 + unat b) 0 bs
       = foldl (\<lambda>acc b. acc * 256 + unat b) 0 (b # bs)"
    using Cons.IH [of "unat b"] by simp
  finally show ?case .
qed

lemma be_val_Nil: "be_val [] = 0"
  by (simp add: be_val_def)

lemma be_val_Cons: "be_val (b # bs) = unat b * 256 ^ length bs + be_val bs"
  using be_val_foldl [of "unat b" bs] by (simp add: be_val_def)

lemma be_val_bound: "be_val bs < 256 ^ length bs"
proof (induction bs)
  case Nil
  show ?case by (simp add: be_val_Nil)
next
  case (Cons b bs)
  have "unat b < 256" using unsigned_less [of b] by simp
  then have "Suc (unat b) * 256 ^ length bs \<le> 256 * 256 ^ length bs"
    by (intro mult_le_mono1) simp
  moreover have "unat b * 256 ^ length bs + be_val bs < Suc (unat b) * 256 ^ length bs"
    using Cons by simp
  ultimately have "unat b * 256 ^ length bs + be_val bs < 256 * 256 ^ length bs"
    by (rule less_le_trans [rotated])
  then show ?case by (simp add: be_val_Cons)
qed

lemma test_bit_iff: "(drop_bit n (c :: 8 word) AND 1 \<noteq> 0) \<longleftrightarrow> bit c n"
  by (simp add: and_one_eq bit_iff_odd_drop_bit mod_2_eq_odd)

lemma bit_word_unat: "bit (c :: 8 word) n \<longleftrightarrow> odd (unat c div 2 ^ n)"
proof -
  have "bit (unat c) n \<longleftrightarrow> bit c n" by (simp add: bit_unsigned_iff)
  then show ?thesis by (simp add: bit_iff_odd)
qed

lemma bit_top:
  assumes "unat (c :: 8 word) < 2 ^ Suc n"
  shows "bit c n \<longleftrightarrow> 2 ^ n \<le> unat c"
proof -
  have "unat c div 2 ^ n < 2"
    using assms by (simp add: less_mult_imp_div_less mult.commute)
  then consider "unat c div 2 ^ n = 0" | "unat c div 2 ^ n = 1" by linarith
  then show ?thesis
  proof cases
    case 1
    then have "unat c < 2 ^ n" by (simp add: div_eq_0_iff)
    with 1 show ?thesis by (simp add: bit_word_unat)
  next
    case 2
    then have "\<not> unat c < 2 ^ n" by (auto simp: div_eq_0_iff)
    with 2 show ?thesis by (simp add: bit_word_unat)
  qed
qed

lemma first_set_bit_char:
  "j \<le> 8 \<Longrightarrow> unat c < 2 ^ (8 - j) \<Longrightarrow>
     first_set_bit c j = (if c = 0 then None else Some (8 - bit_length (unat c)))"
proof (induction c j rule: first_set_bit.induct)
  case (1 oxo j)
  show ?case
  proof (cases "j < 8")
    case False
    with "1.prems" have "unat oxo = 0" by simp
    then have "oxo = 0" by (simp add: unat_eq_0)
    with False show ?thesis by simp
  next
    case True
    then have eq: "8 - j = Suc (7 - j)" by simp
    have top: "bit oxo (7 - j) \<longleftrightarrow> 2 ^ (7 - j) \<le> unat oxo"
      using "1.prems"(2) unfolding eq by (rule bit_top)
    show ?thesis
    proof (cases "bit oxo (7 - j)")
      case set: True
      with top have lo: "2 ^ (7 - j) \<le> unat oxo" by simp
      have "bit_length (unat oxo) = 8 - j"
        using "1.prems"(2) lo by (intro bit_length_eqI) (simp_all add: eq)
      moreover have "oxo \<noteq> 0" using lo by auto
      moreover have "8 - (8 - j) = j" using True by simp
      ultimately show ?thesis using True set
        by (simp add: test_bit_iff)
    next
      case clear: False
      with top have "unat oxo < 2 ^ (8 - Suc j)" by simp
      moreover have "Suc j \<le> 8" using True by simp
      ultimately have "first_set_bit oxo (Suc j) =
          (if oxo = 0 then None else Some (8 - bit_length (unat oxo)))"
        using "1.IH" True clear by (simp add: test_bit_iff)
      then show ?thesis using True clear
        by (subst first_set_bit.simps) (simp add: test_bit_iff)
    qed
  qed
qed

lemma first_set_bit_0:
  "first_set_bit c 0 = (if c = 0 then None else Some (8 - bit_length (unat c)))"
proof -
  have "unat c < 2 ^ (8 - 0)" using unsigned_less [of c] by simp
  then show ?thesis by (intro first_set_bit_char) simp_all
qed

lemma bit_length_byte: "bit_length (unat (c :: 8 word)) \<le> 8"
  using unsigned_less [of c] by (simp add: bit_length_le_iff)

declare first_set_bit.simps [simp del] proximity_loop.simps [simp del] proxCmp_loop.simps [simp del]

lemma proximity_loop_char:
  "i \<le> length one \<Longrightarrow> length other = length one \<Longrightarrow>
     proximity_loop one other i
       = 8 * length one - bit_length (be_val (drop i (xor_bytes one other)))"
proof (induction one other i rule: proximity_loop.induct)
  case (1 one other i)
  let ?xs = "xor_bytes one other"
  have len: "length ?xs = length one" using "1.prems" by (simp add: xor_bytes_def)
  show ?case
  proof (cases "i < length one")
    case False
    with "1.prems" len show ?thesis
      by (subst proximity_loop.simps) (simp add: be_val_Nil bit_length.simps)
  next
    case True
    let ?c = "one ! i XOR other ! i"
    let ?m = "length one - Suc i"
    have nth: "?xs ! i = ?c" using True "1.prems" by (simp add: xor_bytes_def)
    have dr: "drop i ?xs = ?c # drop (Suc i) ?xs"
      using True len nth by (metis Cons_nth_drop_Suc)
    have lrest: "length (drop (Suc i) ?xs) = ?m" using len by simp
    have val: "be_val (drop i ?xs) = unat ?c * 2 ^ (8 * ?m) + be_val (drop (Suc i) ?xs)"
      unfolding dr be_val_Cons lrest by (simp add: power_mult)
    have rb: "be_val (drop (Suc i) ?xs) < 2 ^ (8 * ?m)"
      using be_val_bound [of "drop (Suc i) ?xs"] unfolding lrest by (simp add: power_mult)
    show ?thesis
    proof (cases "?c = 0")
      case zero: True
      then have "first_set_bit ?c 0 = None" by (simp add: first_set_bit_0)
      then have "proximity_loop one other i = proximity_loop one other (Suc i)"
        using True by (subst proximity_loop.simps) simp
      also have "\<dots> = 8 * length one - bit_length (be_val (drop (Suc i) ?xs))"
        using "1.IH" [OF True \<open>first_set_bit ?c 0 = None\<close>] True "1.prems" by simp
      also have "be_val (drop (Suc i) ?xs) = be_val (drop i ?xs)"
        using val zero by simp
      finally show ?thesis .
    next
      case nz: False
      then have pos: "0 < unat ?c" by (simp add: unat_gt_0)
      have fs: "first_set_bit ?c 0 = Some (8 - bit_length (unat ?c))"
        using nz by (simp add: first_set_bit_0)
      have "proximity_loop one other i = i * 8 + (8 - bit_length (unat ?c))"
        using True fs by (subst proximity_loop.simps) simp
      moreover have "bit_length (be_val (drop i ?xs)) = bit_length (unat ?c) + 8 * ?m"
        unfolding val using pos rb by (rule bit_length_shift)
      moreover have "bit_length (unat ?c) \<le> 8" by (rule bit_length_byte)
      ultimately show ?thesis using True by simp
    qed
  qed
qed

lemma proximity_char:
  "length other = length one \<Longrightarrow>
     proximity one other = leading_zeros (8 * length one) (be_val (xor_bytes one other))"
  using proximity_loop_char [of 0 one other] by (simp add: proximity_def leading_zeros_def)

subsection \<open>The distance order\<close>

lemma proxCmp_loop_dist:
  "i \<le> length t \<Longrightarrow>
     proxCmp_loop t a b i
       = cmp3 (be_val (map (\<lambda>k. a ! k XOR t ! k) [i..<length t]))
              (be_val (map (\<lambda>k. b ! k XOR t ! k) [i..<length t]))"
proof (induction t a b i rule: proxCmp_loop.induct)
  case (1 target a b i)
  show ?case
  proof (cases "i < length target")
    case False
    with "1.prems" show ?thesis
      by (subst proxCmp_loop.simps) (simp add: be_val_Nil cmp3_def)
  next
    case True
    let ?da = "a ! i XOR target ! i" and ?db = "b ! i XOR target ! i"
    let ?m = "length target - Suc i"
    let ?xa = "map (\<lambda>k. a ! k XOR target ! k) [Suc i..<length target]"
    let ?xb = "map (\<lambda>k. b ! k XOR target ! k) [Suc i..<length target]"
    have up: "[i..<length target] = i # [Suc i..<length target]"
      using True by (simp add: upt_conv_Cons)
    have vala: "be_val (map (\<lambda>k. a ! k XOR target ! k) [i..<length target])
                  = unat ?da * 256 ^ ?m + be_val ?xa"
      unfolding up by (simp add: be_val_Cons)
    have valb: "be_val (map (\<lambda>k. b ! k XOR target ! k) [i..<length target])
                  = unat ?db * 256 ^ ?m + be_val ?xb"
      unfolding up by (simp add: be_val_Cons)
    have ba: "be_val ?xa < 256 ^ ?m" using be_val_bound [of ?xa] by simp
    have bb: "be_val ?xb < 256 ^ ?m" using be_val_bound [of ?xb] by simp
    have step: "x < y \<Longrightarrow> r < 256 ^ ?m \<Longrightarrow> x * 256 ^ ?m + r < y * 256 ^ ?m + r'"
      for x y r r' :: nat
    proof -
      assume "x < y" and "r < 256 ^ ?m"
      then have "Suc x * 256 ^ ?m \<le> y * 256 ^ ?m" by (intro mult_le_mono1) simp
      moreover have "x * 256 ^ ?m + r < Suc x * 256 ^ ?m" using \<open>r < 256 ^ ?m\<close> by simp
      ultimately show ?thesis by linarith
    qed
    consider (gt) "?da > ?db" | (lt) "?da < ?db" | (eq) "?da = ?db" by fastforce
    then show ?thesis
    proof cases
      case gt
      then have "unat ?db < unat ?da" by (simp add: word_less_nat_alt)
      then have "unat ?db * 256 ^ ?m + be_val ?xb < unat ?da * 256 ^ ?m + be_val ?xa"
        using bb by (rule step)
      moreover have "proxCmp_loop target a b i = 1"
        using True gt by (subst proxCmp_loop.simps) (simp add: Let_def)
      ultimately show ?thesis unfolding vala valb by (simp add: cmp3_def)
    next
      case lt
      then have "unat ?da < unat ?db" by (simp add: word_less_nat_alt)
      then have "unat ?da * 256 ^ ?m + be_val ?xa < unat ?db * 256 ^ ?m + be_val ?xb"
        using ba by (rule step)
      moreover have "proxCmp_loop target a b i = -1"
        using True lt by (subst proxCmp_loop.simps) (auto simp: Let_def)
      ultimately show ?thesis unfolding vala valb by (simp add: cmp3_def)
    next
      case eq
      then have "proxCmp_loop target a b i = proxCmp_loop target a b (Suc i)"
        using True by (subst proxCmp_loop.simps) (simp add: Let_def)
      also have "\<dots> = cmp3 (be_val ?xa) (be_val ?xb)"
        using "1.IH" [OF True refl refl] eq True by simp
      also have "\<dots> = cmp3 (unat ?da * 256 ^ ?m + be_val ?xa) (unat ?db * 256 ^ ?m + be_val ?xb)"
        using eq by (simp add: cmp3_def)
      finally show ?thesis unfolding vala valb .
    qed
  qed
qed

lemma proxCmp_dist: "proxCmp t a b = cmp3 (dist t a) (dist t b)"
  using proxCmp_loop_dist [of 0 t a b] by (simp add: proxCmp_def dist_def)

lemma proxCmp_ge_iff: "proxCmp t a b \<ge> 0 \<longleftrightarrow> dist t b \<le> dist t a"
  by (simp add: proxCmp_dist cmp3_def)

lemma proxCmp_le_iff: "proxCmp t a b \<le> 0 \<longleftrightarrow> dist t a \<le> dist t b"
  by (simp add: proxCmp_dist cmp3_def)

lemma dist_xor_bytes: "length a = length t \<Longrightarrow> dist t a = be_val (xor_bytes a t)"
proof -
  assume "length a = length t"
  then have "map (\<lambda>i. a ! i XOR t ! i) [0..<length t] = xor_bytes a t"
    by (intro nth_equalityI) (simp_all add: xor_bytes_def)
  then show ?thesis by (simp add: dist_def)
qed

lemma proxCmp_char:
  "length a = length target \<Longrightarrow> length b = length target \<Longrightarrow>
     proxCmp target a b = cmp3 (be_val (xor_bytes a target)) (be_val (xor_bytes b target))"
  by (simp add: proxCmp_dist dist_xor_bytes)

lemma xor_bytes_commute: "xor_bytes x y = xor_bytes y x"
proof -
  have "map2 (XOR) x y = map2 (XOR) y x" for x y :: "8 word list"
    by (induction x y rule: list_induct2') (simp_all add: xor.commute)
  then show ?thesis by (simp add: xor_bytes_def)
qed

lemma be_val_zero_iff: "be_val bs = 0 \<longleftrightarrow> (\<forall>b \<in> set bs. b = 0)"
  by (induction bs) (auto simp: be_val_Nil be_val_Cons unat_eq_0)

lemma byte_xor_zero_iff: "(x :: 8 word) XOR y = 0 \<longleftrightarrow> x = y"
proof
  assume h: "x XOR y = 0"
  have "y = (x XOR x) XOR y" by simp
  also have "\<dots> = x XOR (x XOR y)" by (simp only: xor.assoc)
  also have "\<dots> = x" using h by simp
  finally show "x = y" by simp
qed simp

lemma xor_bytes_zero_iff:
  "length x = length y \<Longrightarrow> (\<forall>b \<in> set (xor_bytes x y). b = 0) \<longleftrightarrow> x = y"
  unfolding xor_bytes_def
  by (induction x y rule: list_induct2) (auto simp: byte_xor_zero_iff)

lemma first_diff_Nil: "first_diff [] [] = 0"
  by (simp add: first_diff_def)

lemma first_diff_Cons:
  "first_diff (x # xs) (y # ys) = (if x = y then Suc (first_diff xs ys) else 0)"
  by (simp add: first_diff_def)

lemma first_diff_le: "length xs = length ys \<Longrightarrow> first_diff xs ys \<le> length xs"
  by (induction xs ys rule: list_induct2) (simp_all add: first_diff_Nil first_diff_Cons)

lemma first_diff_append:
  "length as = length bs \<Longrightarrow>
     first_diff (as @ xs) (bs @ ys)
       = (if first_diff as bs = length as then length as + first_diff xs ys
          else first_diff as bs)"
proof (induction as bs rule: list_induct2)
  case Nil
  show ?case by (simp add: first_diff_Nil)
next
  case (Cons a as b bs)
  then show ?case by (simp add: first_diff_Cons)
qed

lemma first_set_bit_diff:
  "j \<le> 8 \<Longrightarrow>
     first_set_bit (a XOR b) j
       = (let d = first_diff (map (\<lambda>k. bit a (7 - k)) [j..<8]) (map (\<lambda>k. bit b (7 - k)) [j..<8])
          in if d = 8 - j then None else Some (j + d))"
proof (induction "a XOR b" j rule: first_set_bit.induct)
  case (1 j)
  show ?case
  proof (cases "j < 8")
    case False
    then show ?thesis
      by (subst first_set_bit.simps) (simp add: first_diff_Nil)
  next
    case True
    then have up: "[j..<8] = j # [Suc j..<8]" by (simp add: upt_conv_Cons)
    have tst: "(drop_bit (7 - j) (a XOR b) AND 1 \<noteq> 0) \<longleftrightarrow> bit a (7 - j) \<noteq> bit b (7 - j)"
      unfolding test_bit_iff by (auto simp: bit_xor_iff)
    let ?d' = "first_diff (map (\<lambda>k. bit a (7 - k)) [Suc j..<8]) (map (\<lambda>k. bit b (7 - k)) [Suc j..<8])"
    show ?thesis
    proof (cases "bit a (7 - j) = bit b (7 - j)")
      case differ: False
      then show ?thesis using True tst unfolding up
        by (subst first_set_bit.simps) (simp add: first_diff_Cons)
    next
      case same: True
      have "first_set_bit (a XOR b) j = first_set_bit (a XOR b) (Suc j)"
        using True tst same by (subst first_set_bit.simps) simp
      also have "\<dots> = (if ?d' = 8 - Suc j then None else Some (Suc j + ?d'))"
        using "1.hyps" True tst same by (simp add: Let_def)
      also have "\<dots> = (if Suc ?d' = 8 - j then None else Some (j + Suc ?d'))"
        using True by auto
      finally show ?thesis unfolding up using same by (simp add: first_diff_Cons Let_def)
    qed
  qed
qed

lemma length_byte_bits: "length (byte_bits b) = 8"
  by (simp add: byte_bits_def)

lemma first_set_bit_byte_bits:
  "first_set_bit (a XOR b) 0
     = (if first_diff (byte_bits a) (byte_bits b) = 8 then None
        else Some (first_diff (byte_bits a) (byte_bits b)))"
  using first_set_bit_diff [of 0 a b] by (simp add: byte_bits_def Let_def)

lemma proximity_loop_bits:
  "i \<le> length one \<Longrightarrow> length other = length one \<Longrightarrow>
     proximity_loop one other i
       = 8 * i + first_diff (bits_of (drop i one)) (bits_of (drop i other))"
proof (induction one other i rule: proximity_loop.induct)
  case (1 one other i)
  show ?case
  proof (cases "i < length one")
    case False
    with "1.prems" show ?thesis
      by (subst proximity_loop.simps) (simp add: bits_of_def first_diff_Nil)
  next
    case True
    let ?fd = "first_diff (byte_bits (one ! i)) (byte_bits (other ! i))"
    let ?rest = "first_diff (bits_of (drop (Suc i) one)) (bits_of (drop (Suc i) other))"
    have d1: "drop i one = one ! i # drop (Suc i) one"
      using True by (simp add: Cons_nth_drop_Suc)
    have d2: "drop i other = other ! i # drop (Suc i) other"
      using True "1.prems" by (simp add: Cons_nth_drop_Suc)
    have split: "first_diff (bits_of (drop i one)) (bits_of (drop i other))
                  = (if ?fd = 8 then 8 + ?rest else ?fd)"
      unfolding d1 d2 bits_of_def
      using first_diff_append [of "byte_bits (one ! i)" "byte_bits (other ! i)"]
      by (simp add: length_byte_bits)
    show ?thesis
    proof (cases "?fd = 8")
      case full: True
      then have fs: "first_set_bit (one ! i XOR other ! i) 0 = None"
        by (simp add: first_set_bit_byte_bits)
      then have "proximity_loop one other i = proximity_loop one other (Suc i)"
        using True by (subst proximity_loop.simps) simp
      also have "\<dots> = 8 * Suc i + ?rest"
        using "1.IH" [OF True fs] True "1.prems" by simp
      finally show ?thesis using split full by simp
    next
      case part: False
      then have "first_set_bit (one ! i XOR other ! i) 0 = Some ?fd"
        by (simp add: first_set_bit_byte_bits)
      then have "proximity_loop one other i = i * 8 + ?fd"
        using True by (subst proximity_loop.simps) simp
      then show ?thesis using split part by simp
    qed
  qed
qed

lemma proximity_first_diff:
  "length other = length one \<Longrightarrow> proximity one other = first_diff (bits_of one) (bits_of other)"
  using proximity_loop_bits [of 0 one other] by (simp add: proximity_def)

text \<open>
  Claim C6. For all 32-byte addresses \<open>x\<close> and \<open>y\<close>, \<open>proximity x y\<close> is the number of
  leading zero bits of the big-endian value of \<open>x XOR y\<close> written with 256 bits; it is
  also the index of the first bit in which \<open>x\<close> and \<open>y\<close> differ; it is at most 256, and
  it is 256 exactly when \<open>x = y\<close>.
\<close>

theorem proximity_leading_zeros:
  assumes "length x = 32" and "length y = 32"
  shows "proximity x y = leading_zeros 256 (be_val (xor_bytes x y))
         \<and> proximity x y = first_diff (bits_of x) (bits_of y)
         \<and> proximity x y \<le> 256
         \<and> (proximity x y = 256 \<longleftrightarrow> x = y)"
proof -
  let ?d = "be_val (xor_bytes x y)"
  have p: "proximity x y = 256 - bit_length ?d"
    using proximity_char [of y x] assms by (simp add: leading_zeros_def)
  have "length (xor_bytes x y) = 32" using assms by (simp add: xor_bytes_def)
  then have "?d < 256 ^ 32" using be_val_bound [of "xor_bytes x y"] by simp
  then have "?d < 2 ^ 256" by simp
  then have bl: "bit_length ?d \<le> 256" by (simp only: bit_length_le_iff)
  have "proximity x y = 256 \<longleftrightarrow> bit_length ?d = 0" using p bl by linarith
  also have "\<dots> \<longleftrightarrow> ?d = 0" by (rule bit_length_zero_iff)
  also have "\<dots> \<longleftrightarrow> x = y"
    using assms by (simp add: be_val_zero_iff xor_bytes_zero_iff)
  finally have "proximity x y = 256 \<longleftrightarrow> x = y" .
  moreover have "proximity x y = first_diff (bits_of x) (bits_of y)"
    using assms by (intro proximity_first_diff) simp
  ultimately show ?thesis using p by (simp add: leading_zeros_def)
qed

theorem proximity_leading_zeros_witness:
  "length (replicate 32 (0 :: 8 word)) = 32
   \<and> length (4 # replicate 31 (0 :: 8 word)) = 32
   \<and> proximity (replicate 32 0) (4 # replicate 31 0) = 5
   \<and> leading_zeros 256 (be_val (xor_bytes (replicate 32 0) (4 # replicate 31 0))) = 5
   \<and> first_diff (bits_of (replicate 32 0)) (bits_of (4 # replicate 31 0)) = 5
   \<and> replicate 32 (0 :: 8 word) \<noteq> 4 # replicate 31 0"
proof -
  have l1: "length (replicate 32 (0 :: 8 word)) = 32"
    and l2: "length (4 # replicate 31 (0 :: 8 word)) = 32" by simp_all
  have v: "proximity (replicate 32 0) (4 # replicate 31 0) = 5" by code_simp
  from proximity_leading_zeros [OF l1 l2] v show ?thesis by simp
qed

text \<open>
  Claim C5. For all 32-byte addresses \<open>t\<close>, \<open>a\<close>, \<open>b\<close>: if \<open>proxCmp t a b < 0\<close> then
  the big-endian value of \<open>a XOR t\<close> is smaller than that of \<open>b XOR t\<close>, and
  \<open>proximity t a \<ge> proximity t b\<close>.
\<close>

theorem proxCmp_proximity_agree:
  assumes "length t = 32" and "length a = 32" and "length b = 32"
    and "proxCmp t a b < 0"
  shows "be_val (xor_bytes a t) < be_val (xor_bytes b t)
         \<and> proximity t a \<ge> proximity t b"
proof -
  have "cmp3 (be_val (xor_bytes a t)) (be_val (xor_bytes b t)) < 0"
    using assms proxCmp_char [of a t b] by simp
  then have lt: "be_val (xor_bytes a t) < be_val (xor_bytes b t)"
    by (simp add: cmp3_def split: if_splits)
  then have "bit_length (be_val (xor_bytes a t)) \<le> bit_length (be_val (xor_bytes b t))"
    by (intro bit_length_mono) simp
  moreover have "proximity t a = 256 - bit_length (be_val (xor_bytes a t))"
    using proximity_char [of a t] assms
    by (simp add: leading_zeros_def xor_bytes_commute [of t a])
  moreover have "proximity t b = 256 - bit_length (be_val (xor_bytes b t))"
    using proximity_char [of b t] assms
    by (simp add: leading_zeros_def xor_bytes_commute [of t b])
  ultimately show ?thesis using lt by simp
qed

theorem proxCmp_proximity_agree_witness:
  "length (replicate 32 (0 :: 8 word)) = 32
   \<and> length (replicate 31 (0 :: 8 word) @ [1]) = 32
   \<and> length (4 # replicate 31 (0 :: 8 word)) = 32
   \<and> proxCmp (replicate 32 0) (replicate 31 0 @ [1]) (4 # replicate 31 0) = -1
   \<and> be_val (xor_bytes (replicate 31 0 @ [1]) (replicate 32 0))
       < be_val (xor_bytes (4 # replicate 31 0) (replicate 32 0))
   \<and> proximity (replicate 32 0) (replicate 31 0 @ [1]) = 255
   \<and> proximity (replicate 32 0) (4 # replicate 31 0) = 5"
proof -
  have l1: "length (replicate 32 (0 :: 8 word)) = 32"
    and l2: "length (replicate 31 (0 :: 8 word) @ [1]) = 32"
    and l3: "length (4 # replicate 31 (0 :: 8 word)) = 32" by simp_all
  have c: "proxCmp (replicate 32 0) (replicate 31 0 @ [1]) (4 # replicate 31 0) = -1"
    by code_simp
  then have neg: "proxCmp (replicate 32 0) (replicate 31 0 @ [1]) (4 # replicate 31 0) < 0"
    by simp
  have p1: "proximity (replicate 32 0) (replicate 31 0 @ [1]) = 255" by code_simp
  have p2: "proximity (replicate 32 0) (4 # replicate 31 0) = 5" by code_simp
  from proxCmp_proximity_agree [OF l1 l2 l3 neg] c p1 p2 show ?thesis by simp
qed

section \<open>Properties of the routing table\<close>

declare adjustProx_up.simps [simp del] adjustProx_down.simps [simp del] remove_loop.simps [simp del]
  GetNodeRecords_loop.simps [simp del] Search_loop.simps [simp del]
  getNodes_loop.simps [simp del] getNodes_visited.simps [simp del]

lemma proximityBin_range:
  "0 \<le> MaxProx self \<Longrightarrow> 0 \<le> proximityBin self a \<and> proximityBin self a \<le> MaxProx self"
  by (simp add: proximityBin_def Let_def)

lemma worstNode_loop_bound:
  "index < i + length ns \<Longrightarrow> worstNode_loop ns i oldest index < i + length ns"
proof (induction ns arbitrary: i oldest index)
  case Nil
  then show ?case by simp
next
  case (Cons n ns)
  have a: "worstNode_loop ns (Suc i) (LastActive n) i < Suc i + length ns"
    by (rule Cons.IH) simp
  have b: "worstNode_loop ns (Suc i) oldest index < Suc i + length ns"
    by (rule Cons.IH) (use Cons.prems in simp)
  from a b show ?case by simp
qed

lemma bucket_worstNode_bound:
  "b_nodes b \<noteq> [] \<Longrightarrow> bucket_worstNode b < length (b_nodes b)"
  using worstNode_loop_bound [of 0 0 "b_nodes b" zero_time]
  by (simp add: bucket_worstNode_def)

text \<open>
  Where no entry of a bucket has the zero time, \<open>bucket_worstNode\<close> finds an entry
  with the least last-active time.
\<close>

lemma worstNode_loop_min:
  "oldest \<noteq> zero_time \<Longrightarrow> \<forall>n \<in> set ns. LastActive n \<noteq> zero_time \<Longrightarrow>
     (worstNode_loop ns i oldest index = index \<and> (\<forall>n \<in> set ns. oldest \<le> LastActive n))
     \<or> (i \<le> worstNode_loop ns i oldest index
        \<and> worstNode_loop ns i oldest index < i + length ns
        \<and> LastActive (ns ! (worstNode_loop ns i oldest index - i)) < oldest
        \<and> (\<forall>n \<in> set ns. LastActive (ns ! (worstNode_loop ns i oldest index - i)) \<le> LastActive n))"
proof (induction ns arbitrary: i oldest index)
  case Nil
  then show ?case by simp
next
  case (Cons n ns)
  have nz: "LastActive n \<noteq> zero_time" and rest: "\<forall>n \<in> set ns. LastActive n \<noteq> zero_time"
    using Cons.prems(2) by simp_all
  show ?case
  proof (cases "LastActive n < oldest")
    case True
    let ?r = "worstNode_loop ns (Suc i) (LastActive n) i"
    have e: "worstNode_loop (n # ns) i oldest index = ?r" using True by simp
    from Cons.IH [OF nz rest, of "Suc i" i]
    consider (keep) "?r = i" "\<forall>m \<in> set ns. LastActive n \<le> LastActive m"
      | (move) "Suc i \<le> ?r" "?r < Suc i + length ns"
          "LastActive (ns ! (?r - Suc i)) < LastActive n"
          "\<forall>m \<in> set ns. LastActive (ns ! (?r - Suc i)) \<le> LastActive m"
      by blast
    then show ?thesis
    proof cases
      case keep
      then show ?thesis unfolding e using True by simp
    next
      case move
      then have "(n # ns) ! (?r - i) = ns ! (?r - Suc i)"
        by (simp add: nth_Cons split: nat.splits) (metis Suc_diff_Suc Suc_le_lessD old.nat.inject)
      with move show ?thesis unfolding e using True by auto
    qed
  next
    case False
    let ?r = "worstNode_loop ns (Suc i) oldest index"
    have e: "worstNode_loop (n # ns) i oldest index = ?r"
      using False Cons.prems(1) by simp
    from Cons.IH [OF Cons.prems(1) rest, of "Suc i" index]
    consider (keep) "?r = index" "\<forall>m \<in> set ns. oldest \<le> LastActive m"
      | (move) "Suc i \<le> ?r" "?r < Suc i + length ns"
          "LastActive (ns ! (?r - Suc i)) < oldest"
          "\<forall>m \<in> set ns. LastActive (ns ! (?r - Suc i)) \<le> LastActive m"
      by blast
    then show ?thesis
    proof cases
      case keep
      then show ?thesis unfolding e using False by auto
    next
      case move
      then have "(n # ns) ! (?r - i) = ns ! (?r - Suc i)"
        by (simp add: nth_Cons split: nat.splits) (metis Suc_diff_Suc Suc_le_lessD old.nat.inject)
      with move show ?thesis unfolding e using False by auto
    qed
  qed
qed

lemma bucket_worstNode_oldest:
  assumes "b_nodes b \<noteq> []" and "\<forall>n \<in> set (b_nodes b). LastActive n \<noteq> zero_time"
  shows "bucket_worstNode b < length (b_nodes b)
         \<and> (\<forall>n \<in> set (b_nodes b). LastActive (b_nodes b ! bucket_worstNode b) \<le> LastActive n)"
proof -
  from assms(1) obtain n ns where ns: "b_nodes b = n # ns" by (cases "b_nodes b") auto
  have nz: "LastActive n \<noteq> zero_time" and rest: "\<forall>n \<in> set ns. LastActive n \<noteq> zero_time"
    using assms(2) ns by simp_all
  let ?r = "worstNode_loop ns (Suc 0) (LastActive n) 0"
  have e: "bucket_worstNode b = ?r" by (simp add: bucket_worstNode_def ns)
  from worstNode_loop_min [OF nz rest, of "Suc 0" 0]
  show ?thesis
  proof (elim disjE conjE)
    assume "?r = 0" and "\<forall>m \<in> set ns. LastActive n \<le> LastActive m"
    then show ?thesis unfolding e ns by simp
  next
    assume m: "Suc 0 \<le> ?r" "?r < Suc 0 + length ns"
      "LastActive (ns ! (?r - Suc 0)) < LastActive n"
      "\<forall>m \<in> set ns. LastActive (ns ! (?r - Suc 0)) \<le> LastActive m"
    then have "(n # ns) ! ?r = ns ! (?r - Suc 0)" by (simp add: nth_Cons split: nat.splits)
    with m show ?thesis unfolding e ns by auto
  qed
qed

text \<open>What \<open>bucket_insert\<close> does, case by case.\<close>

lemma bucket_insert_append:
  "int (length (b_nodes b)) < b_size b \<Longrightarrow>
     bucket_insert b n = Some (b\<lparr>b_nodes := b_nodes b @ [n]\<rparr>)"
  by (simp add: bucket_insert_def)

lemma bucket_insert_replace:
  "b_size b \<le> int (length (b_nodes b)) \<Longrightarrow> 0 < b_size b \<Longrightarrow>
     bucket_insert b n = Some (b\<lparr>b_nodes := (b_nodes b)[bucket_worstNode b := n]\<rparr>)"
proof -
  assume a: "b_size b \<le> int (length (b_nodes b))" and p: "0 < b_size b"
  then have "b_nodes b \<noteq> []" by auto
  then have "bucket_worstNode b < length (b_nodes b)" by (rule bucket_worstNode_bound)
  with a show ?thesis by (simp add: bucket_insert_def Let_def)
qed

lemma bucket_insert_ok:
  assumes "bucket_ok b"
  shows "\<exists>b'. bucket_insert b n = Some b' \<and> bucket_ok b' \<and> b_size b' = b_size b"
proof (cases "int (length (b_nodes b)) < b_size b")
  case True
  with assms show ?thesis by (simp add: bucket_insert_append bucket_ok_def)
next
  case False
  with assms have "bucket_insert b n = Some (b\<lparr>b_nodes := (b_nodes b)[bucket_worstNode b := n]\<rparr>)"
    by (intro bucket_insert_replace) (simp_all add: bucket_ok_def)
  with assms show ?thesis by (simp add: bucket_ok_def)
qed

lemma bucket_at_Some:
  "0 \<le> i \<Longrightarrow> i < int (length (buckets self)) \<Longrightarrow> bucket_at self i = Some (buckets self ! nat i)"
  by (simp add: bucket_at_def)

lemma adjustProx_up_stop:
  "\<not> proxLimit self < MaxProx self \<Longrightarrow> adjustProx_up self = Some self"
  by (subst adjustProx_up.simps) simp

lemma adjustProx_up_empty:
  "proxLimit self < MaxProx self \<Longrightarrow> bucket_at self (proxLimit self) = Some b \<Longrightarrow>
     b_nodes b = [] \<Longrightarrow> adjustProx_up self = Some self"
  by (subst adjustProx_up.simps) simp

lemma adjustProx_up_step:
  "proxLimit self < MaxProx self \<Longrightarrow> bucket_at self (proxLimit self) = Some b \<Longrightarrow>
     b_nodes b \<noteq> [] \<Longrightarrow>
     adjustProx_up self
       = adjustProx_up (self\<lparr>proxSize := proxSize self - int (length (b_nodes b)),
                              proxLimit := proxLimit self + 1\<rparr>)"
  by (subst adjustProx_up.simps) simp

lemma adjustProx_up_frame:
  "0 \<le> proxLimit self \<Longrightarrow> int (length (buckets self)) = MaxProx self + 1 \<Longrightarrow>
     \<exists>pl ps. adjustProx_up self = Some (self\<lparr>proxLimit := pl, proxSize := ps\<rparr>)
        \<and> proxLimit self \<le> pl \<and> (pl \<le> MaxProx self \<or> pl = proxLimit self)"
proof (induction self rule: adjustProx_up.induct)
  case (1 self)
  have same: "self\<lparr>proxLimit := proxLimit self, proxSize := proxSize self\<rparr> = self" by simp
  show ?case
  proof (cases "proxLimit self < MaxProx self")
    case False
    then have "adjustProx_up self = Some (self\<lparr>proxLimit := proxLimit self, proxSize := proxSize self\<rparr>)"
      unfolding same by (rule adjustProx_up_stop)
    then show ?thesis by blast
  next
    case True
    let ?b = "buckets self ! nat (proxLimit self)"
    have b: "bucket_at self (proxLimit self) = Some ?b"
      using "1.prems" True by (intro bucket_at_Some) simp_all
    show ?thesis
    proof (cases "b_nodes ?b = []")
      case empty: True
      have "adjustProx_up self = Some (self\<lparr>proxLimit := proxLimit self, proxSize := proxSize self\<rparr>)"
        unfolding same using True b empty by (rule adjustProx_up_empty)
      then show ?thesis by blast
    next
      case nonempty: False
      let ?s = "self\<lparr>proxSize := proxSize self - int (length (b_nodes ?b)),
                      proxLimit := proxLimit self + 1\<rparr>"
      have pos: "0 < length (b_nodes ?b)" using nonempty by simp
      have p1: "0 \<le> proxLimit ?s" using "1.prems" by simp
      have p2: "int (length (buckets ?s)) = MaxProx ?s + 1" using "1.prems" by simp
      from "1.IH" [OF True b pos p1 p2]
      obtain pl ps where r: "adjustProx_up ?s = Some (?s\<lparr>proxLimit := pl, proxSize := ps\<rparr>)"
        and le: "proxLimit ?s \<le> pl" and up: "pl \<le> MaxProx ?s \<or> pl = proxLimit ?s" by blast
      have "adjustProx_up self = adjustProx_up ?s"
        using True b nonempty by (rule adjustProx_up_step)
      with r have "adjustProx_up self = Some (self\<lparr>proxLimit := pl, proxSize := ps\<rparr>)" by simp
      moreover have "proxLimit self \<le> pl" using le by simp
      moreover have "pl \<le> MaxProx self" using up True by auto
      ultimately show ?thesis by blast
    qed
  qed
qed

lemma adjustProx_down_frame:
  "0 \<le> r \<Longrightarrow> i < int (length (buckets self)) \<Longrightarrow>
     \<exists>ps. adjustProx_down self i r = Some (self\<lparr>proxSize := ps\<rparr>)"
proof (induction self i r rule: adjustProx_down.induct)
  case (1 self i r)
  show ?case
  proof (cases "i > r")
    case False
    then have "adjustProx_down self i r = Some self" by (subst adjustProx_down.simps) simp
    then have "adjustProx_down self i r = Some (self\<lparr>proxSize := proxSize self\<rparr>)" by simp
    then show ?thesis by blast
  next
    case True
    let ?b = "buckets self ! nat i"
    have b: "bucket_at self i = Some ?b"
      using "1.prems" True by (intro bucket_at_Some) simp_all
    let ?s = "self\<lparr>proxSize := proxSize self + int (length (b_nodes ?b))\<rparr>"
    have p2: "i - 1 < int (length (buckets ?s))" using "1.prems" by simp
    from "1.IH" [OF True b "1.prems"(1) p2]
    obtain ps where "adjustProx_down ?s (i - 1) r = Some (?s\<lparr>proxSize := ps\<rparr>)" by blast
    moreover have "adjustProx_down self i r = adjustProx_down ?s (i - 1) r"
      using True b by (subst adjustProx_down.simps) simp
    ultimately have "adjustProx_down self i r = Some (self\<lparr>proxSize := ps\<rparr>)" by simp
    then show ?thesis by blast
  qed
qed

lemma kad_inv_prox:
  "kad_inv self \<Longrightarrow> 0 \<le> pl \<Longrightarrow> pl \<le> MaxProx self + 1 \<Longrightarrow>
     kad_inv (self\<lparr>proxLimit := pl, proxSize := ps\<rparr>)"
  by (simp add: kad_inv_def)

lemma adjustProx_frame:
  assumes inv: "kad_inv self" and r: "0 \<le> r" "r \<le> MaxProx self"
    and add: "add = 1 \<or> add = - 1"
  shows "\<exists>pl ps. adjustProx self r add = Some (self\<lparr>proxLimit := pl, proxSize := ps\<rparr>)
           \<and> 0 \<le> pl \<and> pl \<le> MaxProx self + 1"
proof -
  have len: "int (length (buckets self)) = MaxProx self + 1"
    and pl0: "0 \<le> proxLimit self" and plm: "proxLimit self \<le> MaxProx self + 1"
    using inv by (simp_all add: kad_inv_def)
  have same: "self\<lparr>proxLimit := proxLimit self, proxSize := proxSize self\<rparr> = self" by simp
  have keep: "adjustProx self r add = Some self \<Longrightarrow> ?thesis"
  proof -
    assume "adjustProx self r add = Some self"
    then have "adjustProx self r add
        = Some (self\<lparr>proxLimit := proxLimit self, proxSize := proxSize self\<rparr>)"
      by (simp only: same)
    with pl0 plm show ?thesis by blast
  qed
  let ?b = "buckets self ! nat r"
  have b: "bucket_at self r = Some ?b" using r len by (intro bucket_at_Some) simp_all
  consider (c1) "add = 1" "r = proxLimit self"
    | (c2) "add = 1" "r > proxLimit self" "proxSize self + 1 > MaxProxBinSize self"
    | (c3) "add = 1" "r > proxLimit self" "\<not> proxSize self + 1 > MaxProxBinSize self"
    | (c4) "add = 1" "r < proxLimit self"
    | (c5) "add = - 1" "r < proxLimit self" "b_nodes ?b = []"
    | (c6) "add = - 1" "r < proxLimit self" "b_nodes ?b \<noteq> []"
    | (c7) "add = - 1" "\<not> r < proxLimit self"
    using add by linarith
  then show ?thesis
  proof cases
    case c1
    let ?s = "self\<lparr>proxLimit := proxLimit self + 1\<rparr>"
    have "0 \<le> proxLimit ?s" and "int (length (buckets ?s)) = MaxProx ?s + 1"
      using pl0 len by simp_all
    from adjustProx_up_frame [OF this]
    obtain pl ps where e: "adjustProx_up ?s = Some (?s\<lparr>proxLimit := pl, proxSize := ps\<rparr>)"
      and le: "proxLimit ?s \<le> pl" and up: "pl \<le> MaxProx ?s \<or> pl = proxLimit ?s" by blast
    have "adjustProx self r add = adjustProx_up ?s" using c1 by (simp add: adjustProx_def)
    with e have "adjustProx self r add = Some (self\<lparr>proxLimit := pl, proxSize := ps\<rparr>)" by simp
    moreover have "0 \<le> pl" using le pl0 by simp
    moreover have "pl \<le> MaxProx self + 1" using up c1 r by auto
    ultimately show ?thesis by blast
  next
    case c2
    then have "adjustProx self r add
        = Some (self\<lparr>proxLimit := proxLimit self + 1,
                     proxSize := proxSize self - (int (length (b_nodes ?b)) - 1)\<rparr>)"
      using b by (simp add: adjustProx_def)
    moreover have "0 \<le> proxLimit self + 1" "proxLimit self + 1 \<le> MaxProx self + 1"
      using pl0 c2 r by simp_all
    ultimately show ?thesis by blast
  next
    case c3
    then have "adjustProx self r add
        = Some (self\<lparr>proxLimit := proxLimit self, proxSize := proxSize self + 1\<rparr>)"
      by (simp add: adjustProx_def)
    with pl0 plm show ?thesis by blast
  next
    case c4
    then have "adjustProx self r add = Some self" by (simp add: adjustProx_def)
    then show ?thesis by (rule keep)
  next
    case c5
    have "proxLimit self - 1 < int (length (buckets self))" using plm len by simp
    from adjustProx_down_frame [OF r(1) this]
    obtain ps where "adjustProx_down self (proxLimit self - 1) r = Some (self\<lparr>proxSize := ps\<rparr>)"
      by blast
    then have "adjustProx self r add = Some (self\<lparr>proxSize := ps, proxLimit := r\<rparr>)"
      using c5 b by (simp add: adjustProx_def)
    also have "self\<lparr>proxSize := ps, proxLimit := r\<rparr> = self\<lparr>proxLimit := r, proxSize := ps\<rparr>"
      by simp
    finally show ?thesis using r by force
  next
    case c6
    then have "adjustProx self r add = Some self" using b by (simp add: adjustProx_def)
    then show ?thesis by (rule keep)
  next
    case c7
    then have "adjustProx self r add = Some self" by (simp add: adjustProx_def)
    then show ?thesis by (rule keep)
  qed
qed

lemma kad_inv_set_bucket:
  assumes "kad_inv self" and "bucket_ok b"
  shows "kad_inv (set_bucket self i b)"
proof -
  have "set ((buckets self)[nat i := b]) \<subseteq> insert b (set (buckets self))"
    by (rule set_update_subset_insert)
  then have "list_all bucket_ok ((buckets self)[nat i := b])"
    using assms by (auto simp: kad_inv_def list_all_iff)
  with assms(1) show ?thesis by (simp add: kad_inv_def set_bucket_def)
qed

lemma kad_inv_count: "kad_inv (self\<lparr>count := c\<rparr>) = kad_inv self"
  by (simp add: kad_inv_def)

lemma kad_inv_bucket_ok:
  "kad_inv self \<Longrightarrow> 0 \<le> i \<Longrightarrow> i \<le> MaxProx self \<Longrightarrow> bucket_ok (buckets self ! nat i)"
proof -
  assume inv: "kad_inv self" and i: "0 \<le> i" "i \<le> MaxProx self"
  then have "nat i < length (buckets self)" by (simp add: kad_inv_def nat_less_iff)
  moreover have "list_all bucket_ok (buckets self)" using inv by (simp add: kad_inv_def)
  ultimately show ?thesis by (simp add: list_all_length)
qed

lemma AddNode_inv:
  assumes inv: "kad_inv self"
  shows "\<exists>self'. AddNode self n = Some self' \<and> kad_inv self'
           \<and> Count self' = Count self + 1 \<and> MaxProx self' = MaxProx self"
proof -
  let ?i = "proximityBin self (Addr n)"
  have mp: "0 \<le> MaxProx self" and len: "int (length (buckets self)) = MaxProx self + 1"
    using inv by (simp_all add: kad_inv_def)
  have i: "0 \<le> ?i" "?i \<le> MaxProx self" using proximityBin_range [OF mp] by simp_all
  let ?b = "buckets self ! nat ?i"
  have b: "bucket_at self ?i = Some ?b" using i len by (intro bucket_at_Some) simp_all
  have "bucket_ok ?b" using inv i by (rule kad_inv_bucket_ok)
  from bucket_insert_ok [OF this]
  obtain b' where ins: "bucket_insert ?b n = Some b'" and ok: "bucket_ok b'" by blast
  let ?s = "(set_bucket self ?i b')\<lparr>count := count self + 1\<rparr>"
  have sinv: "kad_inv ?s" using inv ok by (simp add: kad_inv_count kad_inv_set_bucket)
  have smp: "MaxProx ?s = MaxProx self" by (simp add: set_bucket_def)
  show ?thesis
  proof (cases "?i \<ge> proxLimit self")
    case False
    then have "AddNode self n = Some ?s"
      using b ins by (simp add: AddNode_def Let_def set_bucket_def)
    with sinv show ?thesis by (simp add: Count_def set_bucket_def)
  next
    case True
    have "\<exists>pl ps. adjustProx ?s ?i 1 = Some (?s\<lparr>proxLimit := pl, proxSize := ps\<rparr>)
           \<and> 0 \<le> pl \<and> pl \<le> MaxProx ?s + 1"
      using sinv i by (intro adjustProx_frame) (simp_all add: smp)
    then obtain pl ps where e: "adjustProx ?s ?i 1 = Some (?s\<lparr>proxLimit := pl, proxSize := ps\<rparr>)"
      and pl: "0 \<le> pl" "pl \<le> MaxProx ?s + 1" by blast
    have "AddNode self n = adjustProx ?s ?i 1"
      using True b ins by (simp add: AddNode_def Let_def set_bucket_def)
    with e have "AddNode self n = Some (?s\<lparr>proxLimit := pl, proxSize := ps\<rparr>)" by simp
    moreover have "kad_inv (?s\<lparr>proxLimit := pl, proxSize := ps\<rparr>)"
      using sinv pl by (rule kad_inv_prox)
    ultimately show ?thesis by (simp add: Count_def set_bucket_def)
  qed
qed

lemma remove_loop_length: "length (remove_loop a ns i) \<le> length ns"
proof (induction a ns i rule: remove_loop.induct)
  case (1 a ns i)
  show ?case
  proof (cases "i < length ns")
    case False
    then show ?thesis by (subst remove_loop.simps) simp
  next
    case True
    show ?thesis
    proof (cases "a = Addr (ns ! i)")
      case hit: True
      have "length (remove_loop a (take i ns @ drop (i + 1) ns) (i + 1))
              \<le> length (take i ns @ drop (i + 1) ns)"
        using "1.IH"(1) [OF True hit] .
      also have "\<dots> \<le> length ns" by simp
      finally show ?thesis using True hit by (subst remove_loop.simps) simp
    next
      case miss: False
      with True "1.IH"(2) show ?thesis by (subst remove_loop.simps) simp
    qed
  qed
qed

lemma RemoveNode_inv:
  assumes inv: "kad_inv self"
  shows "\<exists>err self'. RemoveNode self n = Some (err, self') \<and> kad_inv self'
           \<and> Count self' = Count self - 1 \<and> MaxProx self' = MaxProx self"
proof -
  let ?i = "proximityBin self (Addr n)"
  have mp: "0 \<le> MaxProx self" and len: "int (length (buckets self)) = MaxProx self + 1"
    using inv by (simp_all add: kad_inv_def)
  have i: "0 \<le> ?i" "?i \<le> MaxProx self" using proximityBin_range [OF mp] by simp_all
  let ?b = "buckets self ! nat ?i"
  have b: "bucket_at self ?i = Some ?b" using i len by (intro bucket_at_Some) simp_all
  have bok: "bucket_ok ?b" using inv i by (rule kad_inv_bucket_ok)
  let ?b' = "?b\<lparr>b_nodes := remove_loop (Addr n) (b_nodes ?b) 0\<rparr>"
  have ok: "bucket_ok ?b'"
    using bok remove_loop_length [of "Addr n" "b_nodes ?b" 0] by (simp add: bucket_ok_def)
  let ?s = "(set_bucket self ?i ?b')\<lparr>count := count self - 1\<rparr>"
  let ?err = "if int (length (b_nodes ?b')) < b_size ?b'
              then Some (InsufficientNodes (length (b_nodes ?b')) ?i) else None"
  have sinv: "kad_inv ?s" using inv ok by (simp add: kad_inv_count kad_inv_set_bucket)
  have smp: "MaxProx ?s = MaxProx self" by (simp add: set_bucket_def)
  show ?thesis
  proof (cases "length (b_nodes ?b') = 0")
    case False
    then have "RemoveNode self n = Some (?err, ?s)"
      using b by (simp add: RemoveNode_def Let_def set_bucket_def)
    with sinv show ?thesis by (simp add: Count_def set_bucket_def)
  next
    case True
    have "\<exists>pl ps. adjustProx ?s ?i (- 1) = Some (?s\<lparr>proxLimit := pl, proxSize := ps\<rparr>)
           \<and> 0 \<le> pl \<and> pl \<le> MaxProx ?s + 1"
      using sinv i by (intro adjustProx_frame) (simp_all add: smp)
    then obtain pl ps where e: "adjustProx ?s ?i (- 1) = Some (?s\<lparr>proxLimit := pl, proxSize := ps\<rparr>)"
      and pl: "0 \<le> pl" "pl \<le> MaxProx ?s + 1" by blast
    have "RemoveNode self n = Some (?err, ?s\<lparr>proxLimit := pl, proxSize := ps\<rparr>)"
      using True b e by (simp add: RemoveNode_def Let_def set_bucket_def)
    moreover have "kad_inv (?s\<lparr>proxLimit := pl, proxSize := ps\<rparr>)"
      using sinv pl by (rule kad_inv_prox)
    ultimately show ?thesis by (simp add: Count_def set_bucket_def)
  qed
qed

lemma apply_op_inv:
  "kad_inv self \<Longrightarrow> \<exists>self'. apply_op self x = Some self' \<and> kad_inv self'"
proof (cases x)
  case (Add n)
  assume "kad_inv self"
  from AddNode_inv [OF this, of n] Add show ?thesis by auto
next
  case (Remove n)
  assume "kad_inv self"
  from RemoveNode_inv [OF this, of n] Remove show ?thesis by auto
qed

lemma run_inv: "kad_inv self \<Longrightarrow> \<exists>self'. run self xs = Some self' \<and> kad_inv self'"
proof (induction xs arbitrary: self)
  case Nil
  then show ?case by simp
next
  case (Cons x xs)
  from apply_op_inv [OF Cons.prems, of x]
  obtain s where a: "apply_op self x = Some s" and "kad_inv s" by blast
  from Cons.IH [OF this(2)] a show ?case by simp
qed

lemma Start_inv:
  assumes "0 \<le> mp" and "0 \<le> bs"
  shows "\<exists>self. Start (configured mp mbs bs) a = Some self \<and> kad_inv self"
proof -
  have "bucket_ok \<lparr>b_size = 20, b_nodes = []\<rparr>"
    and "bs \<noteq> 0 \<Longrightarrow> bucket_ok \<lparr>b_size = bs, b_nodes = []\<rparr>"
    using assms(2) by (simp_all add: bucket_ok_def)
  then show ?thesis using assms
    by (simp add: Start_def configured_def New_def Let_def kad_inv_def list_all_length)
qed

lemma started_run_inv:
  assumes "0 \<le> mp" and "0 \<le> bs"
  shows "\<exists>self. started_run (configured mp mbs bs) a ops = Some self \<and> kad_inv self"
proof -
  from Start_inv [OF assms] obtain s where "Start (configured mp mbs bs) a = Some s" "kad_inv s"
    by blast
  with run_inv [of s ops] show ?thesis by (auto simp: started_run_def)
qed








subsection \<open>Binary search and \<open>push\<close>\<close>

lemma Search_loop_spec:
  "\<forall>x y. x \<le> y \<and> y < n \<and> f x \<longrightarrow> f y \<Longrightarrow> i \<le> j \<Longrightarrow> j \<le> n \<Longrightarrow>
     \<forall>k < i. \<not> f k \<Longrightarrow> \<forall>k. j \<le> k \<and> k < n \<longrightarrow> f k \<Longrightarrow>
     Search_loop i j f \<le> n
     \<and> (\<forall>k < Search_loop i j f. \<not> f k)
     \<and> (\<forall>k. Search_loop i j f \<le> k \<and> k < n \<longrightarrow> f k)"
proof (induction i j f rule: Search_loop.induct)
  case (1 i j f)
  note mono = "1.prems"(1) and ij = "1.prems"(2) and jn = "1.prems"(3)
    and lo = "1.prems"(4) and hi = "1.prems"(5)
  show ?case
  proof (cases "i < j")
    case False
    with ij have "i = j" by simp
    moreover have "Search_loop i j f = i" using False by (subst Search_loop.simps) simp
    ultimately show ?thesis using jn lo hi by simp
  next
    case True
    let ?h = "(i + j) div 2"
    have h: "i \<le> ?h" "?h < j" using True by simp_all
    then have hn: "?h < n" using jn by simp
    show ?thesis
    proof (cases "f ?h")
      case False
      have below: "\<forall>k < ?h + 1. \<not> f k"
      proof (intro allI impI notI)
        fix k
        assume "k < ?h + 1" and "f k"
        then have "k \<le> ?h \<and> ?h < n \<and> f k" using hn by simp
        with mono have "f ?h" by blast
        with False show False by simp
      qed
      have eq: "Search_loop i j f = Search_loop (?h + 1) j f"
        using True False by (subst Search_loop.simps) (simp add: Let_def)
      have "?h + 1 \<le> j" using h by simp
      from "1.IH"(1) [OF True refl False mono this jn below hi]
      show ?thesis unfolding eq .
    next
      case hit: True
      have above: "\<forall>k. ?h \<le> k \<and> k < n \<longrightarrow> f k"
        using hit mono by blast
      have eq: "Search_loop i j f = Search_loop i ?h f"
        using True hit by (subst Search_loop.simps) (simp add: Let_def)
      have "?h \<le> n" using hn by simp
      have nn: "\<not> \<not> f ?h" using hit by simp
      from "1.IH"(2) [OF True refl nn mono h(1) \<open>?h \<le> n\<close> lo above]
      show ?thesis unfolding eq .
    qed
  qed
qed

lemma insort_key_takeWhile:
  "insort_key d x ys = takeWhile (\<lambda>y. d y < d x) ys @ x # dropWhile (\<lambda>y. d y < d x) ys"
  for d :: "'a \<Rightarrow> nat"
  by (induction ys) auto

lemma take_insort_key_take:
  "take L (insort_key d x (take L ys)) = take L (insort_key d x ys)"
  for d :: "'a \<Rightarrow> nat"
proof (induction ys arbitrary: L)
  case Nil
  show ?case by simp
next
  case (Cons y ys)
  show ?case
  proof (cases L)
    case 0
    then show ?thesis by simp
  next
    case (Suc L')
    show ?thesis
    proof (cases "d x \<le> d y")
      case True
      have "take L' (y # take L' ys) = take L' (y # ys)"
        by (cases L') (simp_all add: min_def)
      with True Suc show ?thesis by simp
    next
      case False
      with Suc Cons.IH [of L'] show ?thesis by simp
    qed
  qed
qed

text \<open>The key by which a result list for target \<open>t\<close> is ordered.\<close>

lemma sort_Search_sorted:
  assumes "sorted (map (\<lambda>x. dist t (Addr x)) ns)"
  shows "take (sort_Search (length ns) (\<lambda>i. proxCmp t (Addr (ns ! i)) (Addr n) \<ge> 0)) ns
           = takeWhile (\<lambda>y. dist t (Addr y) < dist t (Addr n)) ns
         \<and> sort_Search (length ns) (\<lambda>i. proxCmp t (Addr (ns ! i)) (Addr n) \<ge> 0) \<le> length ns"
proof -
  let ?d = "\<lambda>x. dist t (Addr x)"
  let ?f = "\<lambda>i. proxCmp t (Addr (ns ! i)) (Addr n) \<ge> 0"
  let ?ix = "Search_loop 0 (length ns) ?f"
  have f: "?f i \<longleftrightarrow> ?d n \<le> ?d (ns ! i)" for i by (simp add: proxCmp_ge_iff)
  have mono: "\<forall>x y. x \<le> y \<and> y < length ns \<and> ?f x \<longrightarrow> ?f y"
  proof (intro allI impI)
    fix x y
    assume a: "x \<le> y \<and> y < length ns \<and> ?f x"
    then have "?d (ns ! x) \<le> ?d (ns ! y)"
      using assms sorted_nth_mono [of "map ?d ns" x y] by simp
    with a show "?f y" unfolding f by simp
  qed
  have spec: "?ix \<le> length ns \<and> (\<forall>k < ?ix. \<not> ?f k) \<and> (\<forall>k. ?ix \<le> k \<and> k < length ns \<longrightarrow> ?f k)"
  proof (rule Search_loop_spec [of "length ns" ?f 0 "length ns"])
    show "\<forall>x y. x \<le> y \<and> y < length ns \<and> ?f x \<longrightarrow> ?f y" by (rule mono)
  qed simp_all
  have "takeWhile (\<lambda>y. ?d y < ?d n) ns = take ?ix ns"
  proof (rule takeWhile_eq_take_P_nth)
    fix i
    assume "i < ?ix" "i < length ns"
    with spec have "\<not> ?f i" by blast
    then show "?d (ns ! i) < ?d n" unfolding f by simp
  next
    assume "?ix < length ns"
    with spec have "?f ?ix" by blast
    then show "\<not> ?d (ns ! ?ix) < ?d n" unfolding f by simp
  qed
  moreover have "?ix \<le> length ns" using spec by (rule conjunct1)
  ultimately show ?thesis unfolding sort_Search_def by (intro conjI) (rule sym)
qed

lemma copy_up_update:
  assumes "ix < length xs"
  shows "(copy_up xs ix)[ix := n] = take ix xs @ n # take (length xs - ix - 1) (drop ix xs)"
proof -
  have g: "go_copy (drop (ix + 1) xs) (drop ix xs) = take (length xs - ix - 1) (drop ix xs)"
    by (simp add: go_copy_def)
  have t: "take (ix + 1) xs = take ix xs @ [xs ! ix]"
    using assms by (simp add: take_Suc_conv_app_nth)
  have "(copy_up xs ix)[ix := n]
          = ((take ix xs @ [xs ! ix]) @ take (length xs - ix - 1) (drop ix xs))[ix := n]"
    unfolding copy_up_def g t ..
  also have "\<dots> = (take ix xs @ [xs ! ix])[ix := n] @ take (length xs - ix - 1) (drop ix xs)"
    using assms by (subst list_update_append1) simp_all
  also have "(take ix xs @ [xs ! ix])[ix := n] = take ix xs @ [n]"
    using assms by (simp add: list_update_append)
  finally show ?thesis by simp
qed

lemma copy_up_appended:
  assumes "ix \<le> length ns"
  shows "(copy_up (ns @ [n]) ix)[ix := n] = take ix ns @ n # drop ix ns"
proof -
  have "ix < length (ns @ [n])" using assms by simp
  from copy_up_update [OF this, of n]
  have "(copy_up (ns @ [n]) ix)[ix := n]
          = take ix (ns @ [n]) @ n # take (length ns - ix) (drop ix (ns @ [n]))"
    by simp
  also have "take ix (ns @ [n]) = take ix ns" using assms by simp
  also have "take (length ns - ix) (drop ix (ns @ [n])) = drop ix ns" using assms by simp
  finally show ?thesis .
qed

lemma copy_up_full:
  assumes "ix < length ns"
  shows "(copy_up ns ix)[ix := n] = take (length ns) (take ix ns @ n # drop ix ns)"
proof -
  have "take (length ns) (take ix ns @ n # drop ix ns)
          = take ix ns @ take (length ns - ix) (n # drop ix ns)"
    using assms by (simp add: min_def)
  also have "take (length ns - ix) (n # drop ix ns) = n # take (length ns - ix - 1) (drop ix ns)"
    using assms by (cases "length ns - ix") simp_all
  finally show ?thesis using copy_up_update [OF assms, of n] by simp
qed

lemma push_insort:
  assumes srt: "sorted (map (\<lambda>x. dist (nbd_target h) (Addr x)) (nbd_nodes h))"
    and len: "length (nbd_nodes h) \<le> nat maxn"
  shows "push h n maxn
           = h\<lparr>nbd_nodes := take (nat maxn)
                  (insort_key (\<lambda>x. dist (nbd_target h) (Addr x)) n (nbd_nodes h))\<rparr>"
proof -
  let ?ns = "nbd_nodes h" and ?t = "nbd_target h"
  let ?d = "\<lambda>x. dist ?t (Addr x)"
  let ?ix = "sort_Search (length ?ns) (\<lambda>i. proxCmp ?t (Addr (?ns ! i)) (Addr n) \<ge> 0)"
  have tk: "take ?ix ?ns = takeWhile (\<lambda>y. ?d y < ?d n) ?ns"
    using sort_Search_sorted [OF srt, of n] by (rule conjunct1)
  have ixl: "?ix \<le> length ?ns"
    using sort_Search_sorted [OF srt, of n] by (rule conjunct2)
  have "dropWhile (\<lambda>y. ?d y < ?d n) ?ns = drop (length (takeWhile (\<lambda>y. ?d y < ?d n) ?ns)) ?ns"
    by (rule dropWhile_eq_drop)
  also have "length (takeWhile (\<lambda>y. ?d y < ?d n) ?ns) = ?ix"
    using tk [symmetric] ixl by simp
  finally have dr: "dropWhile (\<lambda>y. ?d y < ?d n) ?ns = drop ?ix ?ns" .
  have ins: "insort_key ?d n ?ns = take ?ix ?ns @ n # drop ?ix ?ns"
    unfolding insort_key_takeWhile [of ?d n ?ns] tk dr ..
  show ?thesis
  proof (cases "int (length ?ns) < maxn")
    case True
    then have L: "Suc (length ?ns) \<le> nat maxn" by simp
    have a: "(copy_up (?ns @ [n]) ?ix)[?ix := n] = insort_key ?d n ?ns"
      unfolding ins using ixl by (rule copy_up_appended)
    have b: "take (nat maxn) (insort_key ?d n ?ns) = insort_key ?d n ?ns"
      using L by simp
    have "push h n maxn = h\<lparr>nbd_nodes := (copy_up (?ns @ [n]) ?ix)[?ix := n]\<rparr>"
      using True ixl by (simp add: push_def Let_def)
    then show ?thesis unfolding a b .
  next
    case False
    with len have L: "nat maxn = length ?ns" by simp
    show ?thesis
    proof (cases "?ix < length ?ns")
      case True
      have a: "(copy_up ?ns ?ix)[?ix := n] = take (nat maxn) (insort_key ?d n ?ns)"
        unfolding ins L using True by (rule copy_up_full)
      have "push h n maxn = h\<lparr>nbd_nodes := (copy_up ?ns ?ix)[?ix := n]\<rparr>"
        using False True by (simp add: push_def Let_def)
      then show ?thesis unfolding a .
    next
      case full: False
      with ixl have "?ix = length ?ns" by simp
      then have a: "take (nat maxn) (insort_key ?d n ?ns) = ?ns" unfolding ins L by simp
      have "push h n maxn = h" using False full by (simp add: push_def Let_def)
      then show ?thesis unfolding a by simp
    qed
  qed
qed

lemma push_target: "nbd_target (push h n maxn) = nbd_target h"
  by (simp add: push_def Let_def)

lemma take_fold_insort_cong:
  "take L zs = take L zs' \<Longrightarrow>
     take L (fold (insort_key d) xs zs) = take L (fold (insort_key d) xs zs')"
  for d :: "'a \<Rightarrow> nat"
proof (induction xs arbitrary: zs zs')
  case Nil
  then show ?case by simp
next
  case (Cons x xs)
  have "take L (insort_key d x zs) = take L (insort_key d x (take L zs))"
    by (rule take_insort_key_take [symmetric])
  also have "\<dots> = take L (insort_key d x (take L zs'))" using Cons.prems by simp
  also have "\<dots> = take L (insort_key d x zs')" by (rule take_insort_key_take)
  finally have "take L (fold (insort_key d) xs (insort_key d x zs))
                  = take L (fold (insort_key d) xs (insort_key d x zs'))"
    by (rule Cons.IH)
  then show ?case by simp
qed

lemma foldl_push:
  assumes "sorted (map (\<lambda>x. dist (nbd_target h) (Addr x)) (nbd_nodes h))"
    and "length (nbd_nodes h) \<le> nat maxn"
  shows "foldl (\<lambda>r nd. push r nd maxn) h xs
           = h\<lparr>nbd_nodes := take (nat maxn)
                  (fold (insort_key (\<lambda>x. dist (nbd_target h) (Addr x))) xs (nbd_nodes h))\<rparr>"
  using assms
proof (induction xs arbitrary: h)
  case Nil
  then show ?case by simp
next
  case (Cons x xs)
  let ?d = "\<lambda>x. dist (nbd_target h) (Addr x)"
  let ?h1 = "h\<lparr>nbd_nodes := take (nat maxn) (insort_key ?d x (nbd_nodes h))\<rparr>"
  have p: "push h x maxn = ?h1" using Cons.prems by (rule push_insort)
  have "sorted (map ?d (insort_key ?d x (nbd_nodes h)))"
    using Cons.prems(1) by (simp add: sorted_insort_key)
  then have "sorted_wrt (\<lambda>u v. ?d u \<le> ?d v) (take (nat maxn) (insort_key ?d x (nbd_nodes h)))"
    unfolding sorted_map by (rule sorted_wrt_take)
  then have s1: "sorted (map (\<lambda>x. dist (nbd_target ?h1) (Addr x)) (nbd_nodes ?h1))"
    by (simp add: sorted_map)
  have l1: "length (nbd_nodes ?h1) \<le> nat maxn" by simp
  have "foldl (\<lambda>r nd. push r nd maxn) h (x # xs) = foldl (\<lambda>r nd. push r nd maxn) ?h1 xs"
    using p by simp
  also have "\<dots> = ?h1\<lparr>nbd_nodes := take (nat maxn)
        (fold (insort_key (\<lambda>x. dist (nbd_target ?h1) (Addr x))) xs (nbd_nodes ?h1))\<rparr>"
    using s1 l1 by (rule Cons.IH)
  also have "take (nat maxn) (fold (insort_key (\<lambda>x. dist (nbd_target ?h1) (Addr x))) xs
                 (nbd_nodes ?h1))
           = take (nat maxn) (fold (insort_key ?d) xs (insort_key ?d x (nbd_nodes h)))"
    using take_fold_insort_cong [of "nat maxn" "take (nat maxn) (insort_key ?d x (nbd_nodes h))"
        "insort_key ?d x (nbd_nodes h)" ?d xs]
    by simp
  finally show ?case by simp
qed

lemma fold_insort_sort_key: "fold (insort_key d) xs [] = sort_key d (rev xs)"
  by (simp add: sort_key_def foldr_conv_fold)

subsection \<open>The walk over the buckets\<close>

lemma getNodes_loop_unfold:
  "bucket_at self start = Some b \<Longrightarrow>
     getNodes_loop self maxn limit index start down n r
       = (if getNodes_break self maxn limit index start down (n + int (length (b_nodes b)))
          then Some (foldl (\<lambda>r nd. push r nd limit) r (b_nodes b))
          else if down
          then getNodes_loop self maxn limit index (start - 1) True
                 (n + int (length (b_nodes b))) (foldl (\<lambda>r nd. push r nd limit) r (b_nodes b))
          else if start = MaxProx self
          then (if index = 0 then Some (foldl (\<lambda>r nd. push r nd limit) r (b_nodes b))
                else getNodes_loop self maxn limit index (index - 1) True
                       (n + int (length (b_nodes b)))
                       (foldl (\<lambda>r nd. push r nd limit) r (b_nodes b)))
          else getNodes_loop self maxn limit index (start + 1) False
                 (n + int (length (b_nodes b))) (foldl (\<lambda>r nd. push r nd limit) r (b_nodes b)))"
  by (subst getNodes_loop.simps) (simp add: Let_def)

lemma getNodes_visited_unfold:
  "bucket_at self start = Some b \<Longrightarrow>
     getNodes_visited self maxn limit index start down n
       = (if getNodes_break self maxn limit index start down (n + int (length (b_nodes b)))
          then Some (b_nodes b)
          else map_option (\<lambda>vs. b_nodes b @ vs)
            (if down
             then getNodes_visited self maxn limit index (start - 1) True
                    (n + int (length (b_nodes b)))
             else if start = MaxProx self
             then (if index = 0 then Some []
                   else getNodes_visited self maxn limit index (index - 1) True
                          (n + int (length (b_nodes b))))
             else getNodes_visited self maxn limit index (start + 1) False
                    (n + int (length (b_nodes b)))))"
  by (subst getNodes_visited.simps) (simp add: Let_def)

lemma getNodes_loop_visited:
  "getNodes_loop self maxn limit index start down n r
     = map_option (\<lambda>vs. foldl (\<lambda>r nd. push r nd limit) r vs)
         (getNodes_visited self maxn limit index start down n)"
proof (induction self maxn limit index start down n arbitrary: r rule: getNodes_visited.induct)
  case (1 self maxn limit index start down n)
  show ?case
  proof (cases "bucket_at self start")
    case None
    then show ?thesis
      by (subst getNodes_loop.simps, subst getNodes_visited.simps) simp
  next
    case (Some b)
    let ?n = "n + int (length (b_nodes b))"
    let ?r = "foldl (\<lambda>r nd. push r nd limit) r (b_nodes b)"
    note lu = getNodes_loop_unfold [OF Some, of maxn limit index down n r]
    note vu = getNodes_visited_unfold [OF Some, of maxn limit index down n]
    have app: "map_option (\<lambda>vs. foldl (\<lambda>r nd. push r nd limit) r vs)
                 (map_option (\<lambda>vs. b_nodes b @ vs) x)
               = map_option (\<lambda>vs. foldl (\<lambda>r nd. push r nd limit) ?r vs) x" for x
      by (cases x) simp_all
    show ?thesis
    proof (cases "getNodes_break self maxn limit index start down ?n")
      case True
      then show ?thesis unfolding lu vu by simp
    next
      case False
      consider (d) down | (top0) "\<not> down" "start = MaxProx self" "index = 0"
        | (top) "\<not> down" "start = MaxProx self" "index \<noteq> 0"
        | (up) "\<not> down" "start \<noteq> MaxProx self" by blast
      then show ?thesis
      proof cases
        case d
        from "1.IH"(1) [OF Some refl False d, of ?r] False d
        show ?thesis unfolding lu vu by (simp add: app)
      next
        case top0
        with False show ?thesis unfolding lu vu by simp
      next
        case top
        from "1.IH"(2) [OF Some refl False top, of ?r] False top
        show ?thesis unfolding lu vu by (simp add: app)
      next
        case up
        from "1.IH"(3) [OF Some refl False up, of ?r] False up
        show ?thesis unfolding lu vu by (simp add: app)
      qed
    qed
  qed
qed

lemma getNodes_visited_total:
  "kad_inv self \<Longrightarrow> 0 \<le> maxn \<Longrightarrow> 0 \<le> index \<Longrightarrow> down \<or> index \<le> MaxProx self \<Longrightarrow>
     0 \<le> start \<Longrightarrow> start \<le> MaxProx self \<Longrightarrow>
     \<exists>vs. getNodes_visited self maxn limit index start down n = Some vs"
proof (induction self maxn limit index start down n rule: getNodes_visited.induct)
  case (1 self maxn limit index start down n)
  note inv = "1.prems"(1) and mx = "1.prems"(2) and ix = "1.prems"(3) and dn = "1.prems"(4)
    and s0 = "1.prems"(5) and s1 = "1.prems"(6)
  have len: "int (length (buckets self)) = MaxProx self + 1" using inv by (simp add: kad_inv_def)
  let ?b = "buckets self ! nat start"
  have b: "bucket_at self start = Some ?b" using s0 s1 len by (intro bucket_at_Some) simp_all
  let ?n = "n + int (length (b_nodes ?b))"
  note vu = getNodes_visited_unfold [OF b, of maxn limit index down n]
  show ?case
  proof (cases "getNodes_break self maxn limit index start down ?n")
    case True
    then show ?thesis unfolding vu by simp
  next
    case False
    consider (d) down | (top0) "\<not> down" "start = MaxProx self" "index = 0"
      | (top) "\<not> down" "start = MaxProx self" "index \<noteq> 0"
      | (up) "\<not> down" "start \<noteq> MaxProx self" by blast
    then show ?thesis
    proof cases
      case d
      have "start \<noteq> 0"
      proof
        assume "start = 0"
        then have "getNodes_break self maxn limit index start down ?n"
          using d ix mx by (auto simp: getNodes_break_def)
        with False show False by simp
      qed
      then have p: "0 \<le> start - 1" "start - 1 \<le> MaxProx self" using s0 s1 by simp_all
      have "True \<or> index \<le> MaxProx self" by simp
      from "1.IH"(1) [OF b refl False d inv mx ix this p]
      obtain vs where "getNodes_visited self maxn limit index (start - 1) True ?n = Some vs"
        by blast
      with False d show ?thesis unfolding vu by simp
    next
      case top0
      with False show ?thesis unfolding vu by simp
    next
      case top
      then have p: "0 \<le> index - 1" "index - 1 \<le> MaxProx self" using ix dn by simp_all
      have "True \<or> index \<le> MaxProx self" by simp
      from "1.IH"(2) [OF b refl False top inv mx ix this p]
      obtain vs where "getNodes_visited self maxn limit index (index - 1) True ?n = Some vs"
        by blast
      with False top show ?thesis unfolding vu by simp
    next
      case up
      then have p: "0 \<le> start + 1" "start + 1 \<le> MaxProx self" using s0 s1 by simp_all
      have "False \<or> index \<le> MaxProx self" using dn up by simp
      from "1.IH"(3) [OF b refl False up inv mx ix this p]
      obtain vs where "getNodes_visited self maxn limit index (start + 1) False ?n = Some vs"
        by blast
      with False up show ?thesis unfolding vu by simp
    qed
  qed
qed

lemma getNodes_closed_form:
  assumes inv: "kad_inv self" and mx: "0 < maxn"
  shows "\<exists>vs. visited self t maxn = Some vs
           \<and> GetNodes self t maxn
               = Some (take (nat maxn) (sort_key (\<lambda>x. dist t (Addr x)) (rev vs)))"
proof -
  let ?i = "proximityBin self t"
  let ?r = "\<lparr>nbd_nodes = [], nbd_target = t\<rparr>"
  have mp: "0 \<le> MaxProx self" and pl: "0 \<le> proxLimit self"
    using inv by (simp_all add: kad_inv_def)
  have i: "0 \<le> ?i" "?i \<le> MaxProx self" using proximityBin_range [OF mp] by simp_all
  have res: "map_option nbd_nodes (map_option (\<lambda>vs. foldl (\<lambda>r nd. push r nd maxn) ?r vs) x)
         = map_option (\<lambda>vs. take (nat maxn) (sort_key (\<lambda>x. dist t (Addr x)) (rev vs))) x" for x
  proof (cases x)
    case None
    then show ?thesis by simp
  next
    case (Some vs)
    have "foldl (\<lambda>r nd. push r nd maxn) ?r vs
            = ?r\<lparr>nbd_nodes := take (nat maxn)
                  (fold (insort_key (\<lambda>x. dist (nbd_target ?r) (Addr x))) vs (nbd_nodes ?r))\<rparr>"
      by (rule foldl_push) simp_all
    then show ?thesis using Some by (simp add: fold_insort_sort_key)
  qed
  show ?thesis
  proof (cases "?i \<ge> proxLimit self")
    case True
    have "True \<or> proxLimit self \<le> MaxProx self" by simp
    from getNodes_visited_total [OF inv _ pl this mp order_refl, of maxn maxn 0] mx
    obtain vs where v: "getNodes_visited self maxn maxn (proxLimit self) (MaxProx self) True 0 = Some vs"
      by auto
    have "visited self t maxn = Some vs"
      using True mx v by (simp add: visited_def Let_def)
    moreover have "GetNodes self t maxn
        = map_option nbd_nodes (map_option (\<lambda>vs. foldl (\<lambda>r nd. push r nd maxn) ?r vs)
            (getNodes_visited self maxn maxn (proxLimit self) (MaxProx self) True 0))"
      using True mx by (simp add: GetNodes_def getNodes_def Let_def getNodes_loop_visited)
    ultimately show ?thesis unfolding res using v by simp
  next
    case False
    have "False \<or> ?i \<le> MaxProx self" using i by simp
    from getNodes_visited_total [OF inv _ i(1) this i, of maxn maxn 0] mx
    obtain vs where v: "getNodes_visited self maxn maxn ?i ?i False 0 = Some vs"
      by auto
    have "visited self t maxn = Some vs"
      using False mx v by (simp add: visited_def Let_def)
    moreover have "GetNodes self t maxn
        = map_option nbd_nodes (map_option (\<lambda>vs. foldl (\<lambda>r nd. push r nd maxn) ?r vs)
            (getNodes_visited self maxn maxn ?i ?i False 0))"
      using False mx by (simp add: GetNodes_def getNodes_def Let_def getNodes_loop_visited)
    ultimately show ?thesis unfolding res using v by simp
  qed
qed

lemma filter_take_prefix:
  "filter P (take n xs) = take (length (filter P (take n xs))) (filter P xs)"
proof -
  have "filter P xs = filter P (take n xs) @ filter P (drop n xs)"
    by (simp flip: filter_append)
  then show ?thesis by simp
qed

section \<open>Claims about counting, the proximity limit, eviction and node records\<close>

text \<open>
  Claim C10. \<open>RemoveNode\<close> on a table reached from a started one returns, and lowers
  \<open>count\<close> by exactly one, whether or not the node is in its bucket. On a freshly started
  table, which stores no node, one removal leaves \<open>Count\<close> at \<open>-1\<close>: below zero and
  below the number of stored nodes.
\<close>

theorem RemoveNode_decrements_count:
  assumes "0 \<le> mp" and "0 \<le> bs"
  shows "(\<exists>self err self'.
            started_run (configured mp mbs bs) a ops = Some self
            \<and> RemoveNode self n = Some (err, self')
            \<and> Count self' = Count self - 1)
         \<and> map_option (\<lambda>self'. (Count self', stored self'))
              (started_run New (replicate 32 0)
                 [Remove \<lparr>Addr = 4 # replicate 31 0, Url = [], LastActive = 7\<rparr>])
             = Some (- 1, 0)"
proof -
  from started_run_inv [OF assms, of mbs a ops]
  obtain self where s: "started_run (configured mp mbs bs) a ops = Some self" and inv: "kad_inv self"
    by blast
  from RemoveNode_inv [OF inv, of n] s
  have "\<exists>self err self'.
            started_run (configured mp mbs bs) a ops = Some self
            \<and> RemoveNode self n = Some (err, self')
            \<and> Count self' = Count self - 1"
    by blast
  moreover have "map_option (\<lambda>self'. (Count self', stored self'))
              (started_run New (replicate 32 0)
                 [Remove \<lparr>Addr = 4 # replicate 31 0, Url = [], LastActive = 7\<rparr>])
             = Some (- 1, 0)"
    by code_simp
  ultimately show ?thesis by simp
qed

theorem RemoveNode_decrements_count_witness:
  "(0 :: int) \<le> 0
   \<and> (\<exists>self err self'.
          started_run (configured 0 0 0) (replicate 32 0)
            [Add \<lparr>Addr = 4 # replicate 31 0, Url = [], LastActive = 7\<rparr>] = Some self
          \<and> RemoveNode self \<lparr>Addr = 5 # replicate 31 0, Url = [], LastActive = 8\<rparr>
                = Some (err, self')
          \<and> Count self' = Count self - 1)"
  using RemoveNode_decrements_count [of 0 0 0 "replicate 32 0"
      "[Add \<lparr>Addr = 4 # replicate 31 0, Url = [], LastActive = 7\<rparr>]"
      "\<lparr>Addr = 5 # replicate 31 0, Url = [], LastActive = 8\<rparr>"]
  by simp

text \<open>
  Claim C1 (fails on the code). On a table started with the default parameters, adding
  21 different nodes of bin 5 leaves \<open>proxLimit = 1\<close> while bin 0 is empty: at the 21st
  node \<open>proxSize + 1\<close> exceeds \<open>MaxProxBinSize\<close>, and the second case of
  \<open>adjustProx\<close> advances the limit without looking at the bin it passes.
\<close>

theorem adjustProx_passes_empty_bin:
  "map_option (\<lambda>self. (proxLimit self, proxSize self, Count self, take 6 (bin_sizes self)))
     (started_run New (replicate 32 0)
        (map (\<lambda>i. Add \<lparr>Addr = 4 # replicate 30 0 @ [of_nat i], Url = [], LastActive = 7\<rparr>)
           [0..<21]))
   = Some (1, 1, 21, [0, 0, 0, 0, 0, 20])"
  by code_simp

text \<open>
  Claim C3 (fails on the code). In a full bucket whose first entry has the zero time as
  its last-active time, \<open>bucket_worstNode\<close> does not pick that oldest entry: the zero
  time is also the loop's mark for "no oldest entry yet", so the next entry takes its
  place. With capacity 2 and last-active times 0 and 5 in the bucket, a third node
  replaces the entry with time 5.
\<close>

theorem bucket_insert_keeps_zero_time_entry:
  "bucket_worstNode \<lparr>b_size = 2, b_nodes =
       [\<lparr>Addr = 4 # replicate 31 0, Url = [], LastActive = 0\<rparr>,
        \<lparr>Addr = 5 # replicate 31 0, Url = [], LastActive = 5\<rparr>]\<rparr> = 1
   \<and> map_option (\<lambda>self. map LastActive (b_nodes (buckets self ! 5)))
       (started_run (configured 0 0 2) (replicate 32 0)
          [Add \<lparr>Addr = 4 # replicate 31 0, Url = [], LastActive = 0\<rparr>,
           Add \<lparr>Addr = 5 # replicate 31 0, Url = [], LastActive = 5\<rparr>,
           Add \<lparr>Addr = 6 # replicate 31 0, Url = [], LastActive = 9\<rparr>])
     = Some [0, 9]"
  by code_simp








section \<open>Claims about the peer session\<close>

lemma handleStatus_read:
  assumes "\<not> broken self" and "reads self = ReadOk m # rest"
  shows "handleStatus self =
     (let s1 = self\<lparr>sent := sent self @ [SendStatus \<lparr>st_Version = Version, st_ID = ''honey'',
                        st_Addr = Some (localAddr self), st_NetworkId = NetworkId\<rparr>],
                     reads := rest\<rparr>
      in if Code m \<noteq> statusMsg then Done (Some (ProtoError ErrNoStatusMsg), s1)
         else if Size m > ProtocolMaxMsgSize then Done (Some (ProtoError ErrMsgTooLarge), s1)
         else (case as_status m of
                 None \<Rightarrow> Done (Some (ProtoError ErrDecode), s1)
               | Some status \<Rightarrow>
                   if st_NetworkId status \<noteq> NetworkId
                   then Done (Some (ProtoError ErrNetworkIdMismatch), s1)
                   else if Version \<noteq> st_Version status
                   then Done (Some (ProtoError ErrVersionMismatch), s1)
                   else (case st_Addr status of
                           None \<Rightarrow> Panic
                         | Some a \<Rightarrow> Done (None, addPeer (s1\<lparr>remoteAddr := Some a\<rparr>)))))"
  using assms by (simp add: handleStatus_def Send_def ReadMsg_def Let_def)

lemma handleStatus_hive:
  "handleStatus self = Done (e, self') \<Longrightarrow>
     hive self' = (if e = None then hive self @ [ident self] else hive self)"
  by (auto simp: handleStatus_def Send_def ReadMsg_def Let_def addPeer_def
      split: if_splits option.splits list.splits read_result.splits)

lemma handleStatus_accept_only:
  "handleStatus self = Done (None, self') \<Longrightarrow>
     \<exists>m rest st. reads self = ReadOk m # rest \<and> Code m = statusMsg
       \<and> Size m \<le> ProtocolMaxMsgSize \<and> as_status m = Some st
       \<and> st_NetworkId st = NetworkId \<and> st_Version st = Version"
  by (auto simp: handleStatus_def Send_def ReadMsg_def Let_def
      split: if_splits option.splits list.splits read_result.splits)

text \<open>
  Claim C7. \<open>handleStatus\<close> returns nil, having registered the peer with the hive, only
  when the first message read is a status message of at most 10 MiB whose network id and
  version are the local ones. When the status has been sent and a first message \<open>m\<close> is
  read: a code other than the status code gives \<open>ErrNoStatusMsg\<close>; else a size above
  10 MiB gives \<open>ErrMsgTooLarge\<close>; else, the status decoded, another network id gives
  \<open>ErrNetworkIdMismatch\<close>; else another version gives \<open>ErrVersionMismatch\<close>. Whenever
  an error is returned the hive is as it was.
\<close>

theorem handleStatus_accepts_only_matching_status:
  "(\<forall>self'. handleStatus self = Done (None, self') \<longrightarrow>
       (\<exists>m rest st. reads self = ReadOk m # rest \<and> Code m = statusMsg
          \<and> Size m \<le> ProtocolMaxMsgSize \<and> as_status m = Some st
          \<and> st_NetworkId st = NetworkId \<and> st_Version st = Version)
       \<and> hive self' = hive self @ [ident self])
   \<and> (\<forall>err self'. handleStatus self = Done (Some err, self') \<longrightarrow> hive self' = hive self)
   \<and> (\<not> broken self \<and> reads self = ReadOk m # rest \<longrightarrow>
        (Code m \<noteq> statusMsg \<longrightarrow>
           (\<exists>self'. handleStatus self = Done (Some (ProtoError ErrNoStatusMsg), self')))
      \<and> (Code m = statusMsg \<and> Size m > ProtocolMaxMsgSize \<longrightarrow>
           (\<exists>self'. handleStatus self = Done (Some (ProtoError ErrMsgTooLarge), self')))
      \<and> (Code m = statusMsg \<and> Size m \<le> ProtocolMaxMsgSize \<and> as_status m = Some st
           \<and> st_NetworkId st \<noteq> NetworkId \<longrightarrow>
           (\<exists>self'. handleStatus self = Done (Some (ProtoError ErrNetworkIdMismatch), self')))
      \<and> (Code m = statusMsg \<and> Size m \<le> ProtocolMaxMsgSize \<and> as_status m = Some st
           \<and> st_NetworkId st = NetworkId \<and> st_Version st \<noteq> Version \<longrightarrow>
           (\<exists>self'. handleStatus self = Done (Some (ProtoError ErrVersionMismatch), self')))
      \<and> (Code m = statusMsg \<and> Size m \<le> ProtocolMaxMsgSize \<and> as_status m = Some st
           \<and> st_NetworkId st = NetworkId \<and> st_Version st = Version \<and> st_Addr st = Some a \<longrightarrow>
           (\<exists>self'. handleStatus self = Done (None, self') \<and> ident self \<in> set (hive self'))))"
proof (intro conjI allI impI)
  fix self'
  assume h: "handleStatus self = Done (None, self')"
  from handleStatus_accept_only [OF h]
  show "\<exists>m rest st. reads self = ReadOk m # rest \<and> Code m = statusMsg
          \<and> Size m \<le> ProtocolMaxMsgSize \<and> as_status m = Some st
          \<and> st_NetworkId st = NetworkId \<and> st_Version st = Version" .
  from handleStatus_hive [OF h] show "hive self' = hive self @ [ident self]" by simp
next
  fix err self'
  assume "handleStatus self = Done (Some err, self')"
  from handleStatus_hive [OF this] show "hive self' = hive self" by simp
next
  assume a: "\<not> broken self \<and> reads self = ReadOk m # rest" and "Code m \<noteq> statusMsg"
  then show "\<exists>self'. handleStatus self = Done (Some (ProtoError ErrNoStatusMsg), self')"
    using handleStatus_read [of self m rest] by (simp add: Let_def)
next
  assume a: "\<not> broken self \<and> reads self = ReadOk m # rest"
    and "Code m = statusMsg \<and> Size m > ProtocolMaxMsgSize"
  then show "\<exists>self'. handleStatus self = Done (Some (ProtoError ErrMsgTooLarge), self')"
    using handleStatus_read [of self m rest] by (simp add: Let_def)
next
  assume a: "\<not> broken self \<and> reads self = ReadOk m # rest"
    and "Code m = statusMsg \<and> Size m \<le> ProtocolMaxMsgSize \<and> as_status m = Some st
           \<and> st_NetworkId st \<noteq> NetworkId"
  then show "\<exists>self'. handleStatus self = Done (Some (ProtoError ErrNetworkIdMismatch), self')"
    using handleStatus_read [of self m rest] by (simp add: Let_def not_less [symmetric])
next
  assume a: "\<not> broken self \<and> reads self = ReadOk m # rest"
    and "Code m = statusMsg \<and> Size m \<le> ProtocolMaxMsgSize \<and> as_status m = Some st
           \<and> st_NetworkId st = NetworkId \<and> st_Version st \<noteq> Version"
  then show "\<exists>self'. handleStatus self = Done (Some (ProtoError ErrVersionMismatch), self')"
    using handleStatus_read [of self m rest] by (auto simp: Let_def not_less [symmetric])
next
  assume a: "\<not> broken self \<and> reads self = ReadOk m # rest"
    and "Code m = statusMsg \<and> Size m \<le> ProtocolMaxMsgSize \<and> as_status m = Some st
           \<and> st_NetworkId st = NetworkId \<and> st_Version st = Version \<and> st_Addr st = Some a"
  then show "\<exists>self'. handleStatus self = Done (None, self') \<and> ident self \<in> set (hive self')"
    using handleStatus_read [of self m rest]
    by (simp add: Let_def not_less [symmetric] addPeer_def)
qed

lemma handle_read:
  assumes "reads self = ReadOk m # rest" and "Code m = statusMsg"
  shows "handle self =
     Done (Some (ProtoError (if Size m > ProtocolMaxMsgSize then ErrMsgTooLarge
                              else ErrExtraStatusMsg)), self\<lparr>reads := rest\<rparr>)"
  using assms by (simp add: handle_def ReadMsg_def)

theorem handleStatus_accepts_only_matching_status_witness:
  "\<not> broken (session0 [ReadOk (status_ok\<lparr>as_status := Some \<lparr>st_Version = 0, st_ID = ''honey'',
           st_Addr = None, st_NetworkId = 3\<rparr>\<rparr>)])
   \<and> (\<exists>self'. handleStatus (session0 [ReadOk (status_ok\<lparr>as_status := Some \<lparr>st_Version = 0,
           st_ID = ''honey'', st_Addr = None, st_NetworkId = 3\<rparr>\<rparr>)])
         = Done (Some (ProtoError ErrNetworkIdMismatch), self') \<and> hive self' = [])
   \<and> (\<exists>self'. handleStatus (session0 [ReadOk status_ok]) = Done (None, self')
         \<and> hive self' = [1])"
proof -
  let ?st = "\<lparr>st_Version = 0, st_ID = ''honey'', st_Addr = None, st_NetworkId = 3\<rparr>"
  let ?bad = "status_ok\<lparr>as_status := Some ?st\<rparr>"
  let ?a = "\<lparr>pa_IP = [10, 0, 0, 2], pa_Port = 30399, pa_ID = replicate 64 9\<rparr>"
  let ?gst = "\<lparr>st_Version = 0, st_ID = ''honey'', st_Addr = Some ?a, st_NetworkId = 0\<rparr>"
  have pre: "\<not> broken (session0 [ReadOk ?bad]) \<and> reads (session0 [ReadOk ?bad]) = ReadOk ?bad # []"
    by (simp add: session0_def)
  have bad: "Code ?bad = statusMsg \<and> Size ?bad \<le> ProtocolMaxMsgSize \<and> as_status ?bad = Some ?st
      \<and> st_NetworkId ?st \<noteq> NetworkId"
    by (simp add: status_ok_def statusMsg_def ProtocolMaxMsgSize_def NetworkId_def)
  have pre': "\<not> broken (session0 [ReadOk status_ok])
      \<and> reads (session0 [ReadOk status_ok]) = ReadOk status_ok # []"
    by (simp add: session0_def)
  have good: "Code status_ok = statusMsg \<and> Size status_ok \<le> ProtocolMaxMsgSize
      \<and> as_status status_ok = Some ?gst \<and> st_NetworkId ?gst = NetworkId
      \<and> st_Version ?gst = Version \<and> st_Addr ?gst = Some ?a"
    by (simp add: status_ok_def statusMsg_def ProtocolMaxMsgSize_def NetworkId_def Version_def)
  note t1 = handleStatus_accepts_only_matching_status [of "session0 [ReadOk ?bad]" ?bad "[]" ?st ?a]
  note t2 = handleStatus_accepts_only_matching_status
      [of "session0 [ReadOk status_ok]" status_ok "[]" ?gst ?a]
  from t1 pre bad obtain s1 where
    e1: "handleStatus (session0 [ReadOk ?bad]) = Done (Some (ProtoError ErrNetworkIdMismatch), s1)"
    by blast
  with t1 have h1: "hive s1 = hive (session0 [ReadOk ?bad])" by blast
  from t2 pre' good obtain s2 where
    e2: "handleStatus (session0 [ReadOk status_ok]) = Done (None, s2)" by blast
  with t2 have h2: "hive s2 = hive (session0 [ReadOk status_ok]) @ [ident (session0 [ReadOk status_ok])]"
    by blast
  have "hive s1 = []" using h1 by (simp add: session0_def)
  moreover have "hive s2 = [1]" using h2 by (simp add: session0_def)
  ultimately show ?thesis using e1 e2 pre by blast
qed

lemma handle_consumes:
  "handle self = Done (e, self') \<Longrightarrow> length (reads self) = Suc (length (reads self'))"
  by (auto simp: handle_def ReadMsg_def
      split: if_splits option.splits list.splits read_result.splits)

lemma message_loop_next:
  "handle self = Done (None, self') \<Longrightarrow>
     message_loop (length (reads self)) self = message_loop (length (reads self')) self'"
  using handle_consumes [of self None self'] by simp

text \<open>
  Claim C8, as the code has it. When the message loop of a session reads a status
  message, \<open>handle\<close> returns \<open>ErrExtraStatusMsg\<close> if the message has at most 10 MiB and
  \<open>ErrMsgTooLarge\<close> if it has more (the size is tested before the code); either way the
  loop exits with that error, the peer is taken out of the hive and \<^verbatim>\<open>quitC\<close> is
  closed. A session gets there only through a handshake that returned nil.
\<close>

theorem status_message_ends_session:
  assumes "reads self = ReadOk m # rest" and "Code m = statusMsg"
  shows "handle self
           = Done (Some (ProtoError (if Size m > ProtocolMaxMsgSize then ErrMsgTooLarge
                                     else ErrExtraStatusMsg)), self\<lparr>reads := rest\<rparr>)
         \<and> message_loop (length (reads self)) self
           = Done (ProtoError (if Size m > ProtocolMaxMsgSize then ErrMsgTooLarge
                               else ErrExtraStatusMsg),
                   (removePeer (self\<lparr>reads := rest\<rparr>))\<lparr>quit := True\<rparr>)
         \<and> ident self \<notin> set (hive ((removePeer (self\<lparr>reads := rest\<rparr>))\<lparr>quit := True\<rparr>))
         \<and> (handleStatus self0 = Done (None, self) \<longrightarrow>
              runBzzProtocol self0
                = Done (ProtoError (if Size m > ProtocolMaxMsgSize then ErrMsgTooLarge
                                    else ErrExtraStatusMsg),
                        (removePeer (self\<lparr>reads := rest\<rparr>))\<lparr>quit := True\<rparr>))"
proof -
  let ?e = "ProtoError (if Size m > ProtocolMaxMsgSize then ErrMsgTooLarge else ErrExtraStatusMsg)"
  have h: "handle self = Done (Some ?e, self\<lparr>reads := rest\<rparr>)"
    using assms by (rule handle_read)
  have l: "message_loop (length (reads self)) self
             = Done (?e, (removePeer (self\<lparr>reads := rest\<rparr>))\<lparr>quit := True\<rparr>)"
    using assms(1) h by simp
  have r: "ident self \<notin> set (hive ((removePeer (self\<lparr>reads := rest\<rparr>))\<lparr>quit := True\<rparr>))"
    by (simp add: removePeer_def)
  have "runBzzProtocol self0 = Done (?e, (removePeer (self\<lparr>reads := rest\<rparr>))\<lparr>quit := True\<rparr>)"
    if "handleStatus self0 = Done (None, self)"
    using that l by (simp add: runBzzProtocol_def)
  with h l r show ?thesis by blast
qed

theorem status_message_ends_session_witness:
  "reads ((session0 [ReadOk status_ok])\<lparr>hive := [1]\<rparr>) = ReadOk status_ok # []
   \<and> Code status_ok = statusMsg
   \<and> handle ((session0 [ReadOk status_ok])\<lparr>hive := [1]\<rparr>)
       = Done (Some (ProtoError ErrExtraStatusMsg), (session0 [])\<lparr>hive := [1]\<rparr>)
   \<and> message_loop 1 ((session0 [ReadOk status_ok])\<lparr>hive := [1]\<rparr>)
       = Done (ProtoError ErrExtraStatusMsg, (session0 [])\<lparr>hive := [], quit := True\<rparr>)"
proof -
  let ?s = "(session0 [ReadOk status_ok])\<lparr>hive := [1]\<rparr>"
  have a: "reads ?s = ReadOk status_ok # []" by (simp add: session0_def)
  have b: "Code status_ok = statusMsg" by (simp add: status_ok_def statusMsg_def)
  have c: "\<not> Size status_ok > ProtocolMaxMsgSize"
    by (simp add: status_ok_def ProtocolMaxMsgSize_def)
  from status_message_ends_session [OF a b, of ?s] a b c show ?thesis
    by (simp add: session0_def removePeer_def)
qed

theorem oversize_status_is_MsgTooLarge:
  "Code status_big = statusMsg
   \<and> handle (session0 [ReadOk status_big])
       = Done (Some (ProtoError ErrMsgTooLarge), session0 [])
   \<and> (\<forall>self'. handle (session0 [ReadOk status_big])
         \<noteq> Done (Some (ProtoError ErrExtraStatusMsg), self'))"
  by (simp add: handle_def ReadMsg_def session0_def status_big_def status_ok_def
      statusMsg_def ProtocolMaxMsgSize_def)

lemma entry_found:
  assumes "length (addrKey env) = 32" and "take 32 (sl_key st) = addrKey env"
    and "dbStore env (drop 32 (sl_key st)) = Some c" and "sl_it st = Some rest"
  shows "\<exists>ctl st' tail. storeRequestLoop_entry env st = Some (ctl, st')
           \<and> trace st' = trace st @ [Sent (SendStoreRequest
                 \<lparr>sr_Key = ch_Key c, sr_SData = ch_SData c,
                  sr_Id = generateId env (ids_drawn st)\<rparr>), Deleted (sl_key st)] @ tail
           \<and> (tail = [] \<or> tail = [Slept])
           \<and> requestDb st' = db_Delete (requestDb st) (sl_key st)"
proof -
  have "length (take 32 (sl_key st)) = 32" using assms(1,2) by simp
  then have len: "\<not> length (sl_key st) < 32" by simp
  show ?thesis using len assms(2,3,4)
    by (simp add: storeRequestLoop_entry_def storeRequestLoop_send_def Let_def)
qed

lemma entry_missing:
  assumes "length (addrKey env) = 32" and "take 32 (sl_key st) = addrKey env"
    and "dbStore env (drop 32 (sl_key st)) = None"
  shows "storeRequestLoop_entry env st
           = Some (Continue, st\<lparr>requestDb := db_Delete (requestDb st) (sl_key st),
                                 trace := trace st @ [Deleted (sl_key st)]\<rparr>)"
proof -
  have "length (take 32 (sl_key st)) = 32" using assms(1,2) by simp
  then have len: "\<not> length (sl_key st) < 32" by simp
  show ?thesis using len assms(2,3) by (simp add: storeRequestLoop_entry_def)
qed

text \<open>
  Claim C9. In a round of the pending-store loop that tests a key \<open>k\<close> whose first 32
  bytes are the peer's address key: if the chunk store has the chunk named by the other
  bytes of \<open>k\<close>, a store request with the chunk's key and data is passed to
  \<^verbatim>\<open>p2p.Send\<close> and then \<open>k\<close> is deleted from the request database (a sleep may
  follow); if the lookup fails, \<open>k\<close> is deleted and nothing is sent.
\<close>

theorem storeRequestLoop_round_entry:
  assumes "loop_ok st" and "examined st = Some k"
    and "length (addrKey env) = 32" and "take 32 k = addrKey env"
  shows "(case dbStore env (drop 32 k) of
            Some c \<Rightarrow>
              \<exists>ctl st' tail. storeRequestLoop_round env st = Some (ctl, st')
                 \<and> trace st' = trace st @ [Sent (SendStoreRequest
                       \<lparr>sr_Key = ch_Key c, sr_SData = ch_SData c,
                        sr_Id = generateId env (ids_drawn st)\<rparr>), Deleted k] @ tail
                 \<and> (tail = [] \<or> tail = [Slept])
                 \<and> requestDb st' = db_Delete (requestDb st) k
          | None \<Rightarrow>
              \<exists>st'. storeRequestLoop_round env st = Some (Continue, st')
                 \<and> trace st' = trace st @ [Deleted k]
                 \<and> requestDb st' = db_Delete (requestDb st) k)"
proof (cases "sl_n st = 0")
  case True
  let ?rest = "it_Seek (requestDb st) (sl_key st)"
  from assms(2) True obtain ks where rest: "?rest = k # ks"
    by (auto simp: examined_def split: list.splits)
  let ?st = "st\<lparr>sl_it := Some ?rest, sl_key := it_Key ?rest, sl_n := 100\<rparr>"
  have round: "storeRequestLoop_round env st = storeRequestLoop_entry env ?st"
    using True rest by (simp add: storeRequestLoop_round_def Let_def)
  have key: "sl_key ?st = k" using rest by (simp add: it_Key_def)
  show ?thesis
  proof (cases "dbStore env (drop 32 k)")
    case None
    have "storeRequestLoop_entry env ?st
           = Some (Continue, ?st\<lparr>requestDb := db_Delete (requestDb ?st) (sl_key ?st),
                                 trace := trace ?st @ [Deleted (sl_key ?st)]\<rparr>)"
      using assms(3,4) None key by (intro entry_missing) simp_all
    then show ?thesis using None round key by simp
  next
    case (Some c)
    have "\<exists>ctl st' tail. storeRequestLoop_entry env ?st = Some (ctl, st')
           \<and> trace st' = trace ?st @ [Sent (SendStoreRequest
                 \<lparr>sr_Key = ch_Key c, sr_SData = ch_SData c,
                  sr_Id = generateId env (ids_drawn ?st)\<rparr>), Deleted (sl_key ?st)] @ tail
           \<and> (tail = [] \<or> tail = [Slept])
           \<and> requestDb st' = db_Delete (requestDb ?st) (sl_key ?st)"
      using assms(3,4) Some key by (intro entry_found) simp_all
    then show ?thesis using Some round key by simp
  qed
next
  case False
  with assms(1) obtain rest where it: "sl_it st = Some rest" by (auto simp: loop_ok_def)
  from assms(2) False have key: "sl_key st = k" by (simp add: examined_def)
  have round: "storeRequestLoop_round env st = storeRequestLoop_entry env st"
    using False by (simp add: storeRequestLoop_round_def)
  show ?thesis
  proof (cases "dbStore env (drop 32 k)")
    case None
    have "storeRequestLoop_entry env st
           = Some (Continue, st\<lparr>requestDb := db_Delete (requestDb st) (sl_key st),
                                 trace := trace st @ [Deleted (sl_key st)]\<rparr>)"
      using assms(3,4) None key by (intro entry_missing) simp_all
    then show ?thesis using None round key by simp
  next
    case (Some c)
    have "\<exists>ctl st' tail. storeRequestLoop_entry env st = Some (ctl, st')
           \<and> trace st' = trace st @ [Sent (SendStoreRequest
                 \<lparr>sr_Key = ch_Key c, sr_SData = ch_SData c,
                  sr_Id = generateId env (ids_drawn st)\<rparr>), Deleted (sl_key st)] @ tail
           \<and> (tail = [] \<or> tail = [Slept])
           \<and> requestDb st' = db_Delete (requestDb st) (sl_key st)"
      using assms(3,4) Some key it by (intro entry_found) simp_all
    then show ?thesis using Some round key by simp
  qed
qed

lemma loop_ok_init: "loop_ok (storeRequestLoop_init env db)"
  by (simp add: loop_ok_def storeRequestLoop_init_def)

lemma loop_ok_round:
  "loop_ok st \<Longrightarrow> storeRequestLoop_round env st = Some (ctl, st') \<Longrightarrow> loop_ok st'"
  by (auto simp: storeRequestLoop_round_def storeRequestLoop_entry_def
      storeRequestLoop_send_def loop_ok_def Let_def
      split: if_splits option.splits)

theorem storeRequestLoop_round_entry_witness:
  "loop_ok (storeRequestLoop_init example_env example_queue)
   \<and> examined (storeRequestLoop_init example_env example_queue)
       = Some (replicate 32 7 @ replicate 32 1)
   \<and> length (addrKey example_env) = 32
   \<and> take 32 (replicate 32 7 @ replicate 32 1) = addrKey example_env
   \<and> dbStore example_env (drop 32 (replicate 32 7 @ replicate 32 1))
       = Some \<lparr>ch_Key = replicate 32 1, ch_SData = [1, 2, 3]\<rparr>
   \<and> (\<exists>ctl st' tail.
         storeRequestLoop_round example_env (storeRequestLoop_init example_env example_queue)
           = Some (ctl, st')
         \<and> trace st' = [Sent (SendStoreRequest
               \<lparr>sr_Key = replicate 32 1, sr_SData = [1, 2, 3], sr_Id = 40\<rparr>),
              Deleted (replicate 32 7 @ replicate 32 1)] @ tail
         \<and> requestDb st'
             = [replicate 32 7 @ replicate 32 2, replicate 32 9 @ replicate 32 1])"
proof -
  let ?st = "storeRequestLoop_init example_env example_queue"
  let ?k = "replicate 32 7 @ replicate 32 (1 :: 8 word)"
  have q: "example_queue = [?k, replicate 32 7 @ replicate 32 2, replicate 32 9 @ replicate 32 1]"
    by code_simp
  have ok: "loop_ok ?st" by (rule loop_ok_init)
  have ex: "examined ?st = Some ?k" by code_simp
  have len: "length (addrKey example_env) = 32" by (simp add: example_env_def)
  have pre: "take 32 ?k = addrKey example_env" by (simp add: example_env_def)
  have db: "dbStore example_env (drop 32 ?k) = Some \<lparr>ch_Key = replicate 32 1, ch_SData = [1, 2, 3]\<rparr>"
    by (simp add: example_env_def)
  have del: "db_Delete (requestDb ?st) ?k
      = [replicate 32 7 @ replicate 32 2, replicate 32 9 @ replicate 32 1]"
    by code_simp
  have ids: "generateId example_env (ids_drawn ?st) = 40"
    by (simp add: example_env_def storeRequestLoop_init_def)
  have tr: "trace ?st = []" by (simp add: storeRequestLoop_init_def)
  from storeRequestLoop_round_entry [OF ok ex len pre] db
  obtain ctl st' tail where "storeRequestLoop_round example_env ?st = Some (ctl, st')"
    and "trace st' = trace ?st @ [Sent (SendStoreRequest
               \<lparr>sr_Key = replicate 32 1, sr_SData = [1, 2, 3],
                sr_Id = generateId example_env (ids_drawn ?st)\<rparr>), Deleted ?k] @ tail"
    and "requestDb st' = db_Delete (requestDb ?st) ?k"
    by auto
  then have "\<exists>ctl st' tail.
         storeRequestLoop_round example_env ?st = Some (ctl, st')
         \<and> trace st' = [Sent (SendStoreRequest
               \<lparr>sr_Key = replicate 32 1, sr_SData = [1, 2, 3], sr_Id = 40\<rparr>), Deleted ?k] @ tail
         \<and> requestDb st' = [replicate 32 7 @ replicate 32 2, replicate 32 9 @ replicate 32 1]"
    unfolding del ids tr by auto
  with ok ex len pre db show ?thesis by blast
qed

section \<open>The claim about nearest nodes\<close>

text \<open>
  Claim C4, as the code has it. On a table reached by \<open>AddNode\<close> and \<open>RemoveNode\<close> from
  one started with \<open>MaxProx \<ge> 0\<close> and \<open>BucketSize \<ge> 0\<close>, \<open>GetNodes\<close> with \<open>maxn > 0\<close>
  returns: at most \<open>maxn\<close> nodes, in order of non-decreasing distance to the target as
  \<open>proxCmp\<close> gives it. The list is the first \<open>maxn\<close> entries of the stable sort by
  distance of the visited nodes taken in reverse order; so the nodes at one distance stand
  in the reverse of the order in which the walk passes them to \<open>push\<close>.
\<close>

theorem GetNodes_sorted_ties_reversed:
  assumes "0 \<le> mp" and "0 \<le> bs" and "0 < maxn"
  shows "\<exists>self vs ns.
           started_run (configured mp mbs bs) a ops = Some self
           \<and> visited self t maxn = Some vs
           \<and> GetNodes self t maxn = Some ns
           \<and> ns = take (nat maxn) (sort_key (\<lambda>x. dist t (Addr x)) (rev vs))
           \<and> int (length ns) \<le> maxn
           \<and> sorted_wrt (\<lambda>x y. proxCmp t (Addr x) (Addr y) \<le> 0) ns
           \<and> (\<forall>k. filter (\<lambda>x. dist t (Addr x) = k) ns
                   = take (length (filter (\<lambda>x. dist t (Addr x) = k) ns))
                       (rev (filter (\<lambda>x. dist t (Addr x) = k) vs)))"
proof -
  let ?d = "\<lambda>x. dist t (Addr x)"
  from started_run_inv [OF assms(1,2), of mbs a ops]
  obtain self where s: "started_run (configured mp mbs bs) a ops = Some self"
    and inv: "kad_inv self" by blast
  from getNodes_closed_form [OF inv assms(3), of t]
  obtain vs where v: "visited self t maxn = Some vs"
    and g: "GetNodes self t maxn = Some (take (nat maxn) (sort_key ?d (rev vs)))" by blast
  let ?ns = "take (nat maxn) (sort_key ?d (rev vs))"
  have len: "int (length ?ns) \<le> maxn" using assms(3) by simp
  have "sorted (map ?d (sort_key ?d (rev vs)))" by (rule sorted_sort_key)
  then have "sorted_wrt (\<lambda>x y. ?d x \<le> ?d y) (sort_key ?d (rev vs))" by (simp add: sorted_map)
  then have "sorted_wrt (\<lambda>x y. ?d x \<le> ?d y) ?ns" by (rule sorted_wrt_take)
  then have srt: "sorted_wrt (\<lambda>x y. proxCmp t (Addr x) (Addr y) \<le> 0) ?ns"
    by (simp add: proxCmp_le_iff)
  have ties: "filter (\<lambda>x. ?d x = k) ?ns
                = take (length (filter (\<lambda>x. ?d x = k) ?ns)) (rev (filter (\<lambda>x. ?d x = k) vs))" for k
  proof -
    have "filter (\<lambda>x. ?d x = k) ?ns
            = take (length (filter (\<lambda>x. ?d x = k) ?ns)) (filter (\<lambda>x. ?d x = k) (sort_key ?d (rev vs)))"
      by (rule filter_take_prefix)
    also have "filter (\<lambda>x. ?d x = k) (sort_key ?d (rev vs)) = filter (\<lambda>x. ?d x = k) (rev vs)"
      by (rule sort_key_stable)
    also have "\<dots> = rev (filter (\<lambda>x. ?d x = k) vs)" by (rule rev_filter [symmetric])
    finally show ?thesis .
  qed
  from s v g len srt ties show ?thesis by blast
qed

theorem GetNodes_sorted_ties_reversed_witness:
  "(0 :: int) \<le> 0 \<and> (0 :: int) < 2
   \<and> (\<exists>self vs ns.
         started_run (configured 0 0 0) (replicate 32 0) [Add node_a, Add node_b] = Some self
         \<and> visited self (replicate 32 1) 2 = Some vs
         \<and> GetNodes self (replicate 32 1) 2 = Some ns
         \<and> ns = take (nat 2) (sort_key (\<lambda>x. dist (replicate 32 1) (Addr x)) (rev vs))
         \<and> int (length ns) \<le> 2
         \<and> sorted_wrt (\<lambda>x y. proxCmp (replicate 32 1) (Addr x) (Addr y) \<le> 0) ns)
   \<and> map_option (\<lambda>self. (visited self (replicate 32 1) 2, GetNodes self (replicate 32 1) 2))
        (started_run (configured 0 0 0) (replicate 32 0) [Add node_a, Add node_b])
       = Some (Some [node_a, node_b], Some [node_b, node_a])"
proof -
  have a: "(0 :: int) \<le> 0" and b: "(0 :: int) < 2" by simp_all
  from GetNodes_sorted_ties_reversed [OF a a b, of 0 "replicate 32 0" "[Add node_a, Add node_b]"
      "replicate 32 1"]
  have "\<exists>self vs ns.
         started_run (configured 0 0 0) (replicate 32 0) [Add node_a, Add node_b] = Some self
         \<and> visited self (replicate 32 1) 2 = Some vs
         \<and> GetNodes self (replicate 32 1) 2 = Some ns
         \<and> ns = take (nat 2) (sort_key (\<lambda>x. dist (replicate 32 1) (Addr x)) (rev vs))
         \<and> int (length ns) \<le> 2
         \<and> sorted_wrt (\<lambda>x y. proxCmp (replicate 32 1) (Addr x) (Addr y) \<le> 0) ns"
    by blast
  moreover have "map_option (\<lambda>self. (visited self (replicate 32 1) 2, GetNodes self (replicate 32 1) 2))
        (started_run (configured 0 0 0) (replicate 32 0) [Add node_a, Add node_b])
       = Some (Some [node_a, node_b], Some [node_b, node_a])"
    by code_simp
  ultimately show ?thesis using a b by (intro conjI)
qed

text \<open>
  The claim as the specification words it fails: here two nodes at the same distance are
  added one after the other, and the one inserted first comes second.
\<close>

theorem GetNodes_ties_not_in_insertion_order:
  "map_option (\<lambda>self. (b_nodes (buckets self ! 5), GetNodes self (replicate 32 1) 2))
     (started_run New (replicate 32 0) [Add node_a, Add node_b])
     = Some ([node_a, node_b], Some [node_b, node_a])
   \<and> proxCmp (replicate 32 1) (Addr node_a) (Addr node_b) = 0"
  by code_simp

end
